theory Spec2Isabelle
  imports Main "HOL-Library.AList"
begin

section \<open>JavaScript values\<close>

text \<open>
  A timestamp of the host's \<open>FileInfo\<close> is \<open>number | null\<close>; \<open>None\<close> is \<open>null\<close>.
  Timestamps are whole numbers, so \<open>int\<close> stands for \<open>number\<close>. The detector tests
  values for truthiness (\<open>if (curr[path])\<close>, \<open>!prev[path]\<close>, \<open>a || b\<close>): \<open>null\<close>,
  \<open>undefined\<close>, \<open>0\<close> and the empty string are falsy.
\<close>

type_synonym time = "int option"

definition truthy :: "time \<Rightarrow> bool" where
  "truthy t = (case t of None \<Rightarrow> False | Some n \<Rightarrow> n \<noteq> 0)"

definition js_or :: "time \<Rightarrow> time \<Rightarrow> time" where
  "js_or a b = (if truthy a then a else b)"

text \<open>\<open>ToNumber\<close> as the relational operator \<open><\<close> applies it: \<open>null\<close> becomes 0.\<close>

definition to_number :: "time \<Rightarrow> int" where
  "to_number t = (case t of None \<Rightarrow> 0 | Some n \<Rightarrow> n)"

definition truthy_str :: "string option \<Rightarrow> bool" where
  "truthy_str s = (case s of None \<Rightarrow> False | Some cs \<Rightarrow> cs \<noteq> [])"

definition str_or :: "string option \<Rightarrow> string option \<Rightarrow> string option" where
  "str_or a b = (if truthy_str a then a else b)"

text \<open>
  A plain object used as a dictionary (\<open>this.files\<close>, \<open>newFiles\<close>): an association list
  in insertion order, which is the order \<open>Object.keys\<close> lists string keys in. A lookup
  of a missing key is \<open>undefined\<close> (\<open>None\<close> of \<open>map_of\<close>); an assignment keeps the place
  of a key that is there and appends a new one (\<open>AList.update\<close>); \<open>delete\<close> is
  \<open>AList.delete\<close>. Keys are file paths; the members an object inherits from
  \<open>Object.prototype\<close> and integer-like keys are outside the model.
\<close>

type_synonym snapshot = "(string \<times> time) list"

definition obj_truthy :: "snapshot \<Rightarrow> string \<Rightarrow> bool" where
  "obj_truthy m k = (case map_of m k of None \<Rightarrow> False | Some t \<Rightarrow> truthy t)"

definition obj_number :: "snapshot \<Rightarrow> string \<Rightarrow> int" where
  "obj_number m k = (case map_of m k of None \<Rightarrow> 0 | Some t \<Rightarrow> to_number t)"

definition Object_keys :: "snapshot \<Rightarrow> string list" where
  "Object_keys m = map fst m"

section \<open>The host's file system interface\<close>

text \<open>
  The module \<open>deno\<close> is not part of the repository: its \<open>FileInfo\<close>, its errors and
  its accessors are parameters of the model. \<open>isFile()\<close>, \<open>isDirectory()\<close> and
  \<open>isSymlink()\<close> exclude each other. One \<open>filesystem\<close> value answers the blocking
  and the awaitable form of each accessor alike: the file system does not change
  during a pass.
\<close>

datatype kind = File | Directory | Symlink

record FileInfo =
  name :: "string option"
  path :: "string option"
  kind :: kind
  modified :: time
  created :: time

definition isFile :: "FileInfo \<Rightarrow> bool" where
  "isFile i = (kind i = File)"

definition isDirectory :: "FileInfo \<Rightarrow> bool" where
  "isDirectory i = (kind i = Directory)"

definition isSymlink :: "FileInfo \<Rightarrow> bool" where
  "isSymlink i = (kind i = Symlink)"

datatype ErrorKind = NotFound | PermissionDenied | Other

text \<open>
  What can be thrown: a \<open>DenoError\<close> of the host with its kind, an \<open>Error\<close> with its
  message, and the \<open>RangeError\<close> of the JavaScript engine when nested calls have used
  up the call stack. Only the first is an instance of \<open>DenoError\<close>.
\<close>

datatype exn = DenoError ErrorKind | Error string | RangeError

record filesystem =
  lstat :: "string \<Rightarrow> exn + FileInfo"
  readlink :: "string \<Rightarrow> exn + string"
  readDir :: "string \<Rightarrow> exn + FileInfo list"

section \<open>Changes, options and the filter (mod.ts, lines 14-81 and 195-216)\<close>

record Changes =
  added :: "string list"
  modified :: "string list"
  deleted :: "string list"
  startTime :: int
  endTime :: int
  fileCount :: nat

definition new_Changes :: Changes where
  "new_Changes = \<lparr>added = [], modified = [], deleted = [], startTime = 0, endTime = 0,
     fileCount = 0\<rparr>"

definition changes_length :: "Changes \<Rightarrow> nat" where
  "changes_length c = length (added c) + length (Changes.modified c) + length (deleted c)"

definition changes_all :: "Changes \<Rightarrow> string list" where
  "changes_all c = added c @ Changes.modified c @ deleted c"

text \<open>
  The options after \<open>watch\<close> has merged them over \<open>defaultOptions\<close>. The two regular
  expressions are used through \<open>RegExp.test\<close> only and are predicates on the path.
\<close>

record DetectorOptions =
  followSymlink :: bool
  ignoreDotFiles :: bool
  test :: "string \<Rightarrow> bool"
  ignore :: "string \<Rightarrow> bool"

definition defaultOptions :: DetectorOptions where
  "defaultOptions = \<lparr>followSymlink = False, ignoreDotFiles = True,
     test = (\<lambda>_. True), ignore = (\<lambda>_. False)\<rparr>"

text \<open>\<open>path.split("/")\<close>: never empty; \<open>"".split("/")\<close> is \<open>[""]\<close>.\<close>

fun split_slash :: "string \<Rightarrow> string list" where
  "split_slash [] = [[]]"
| "split_slash (c # cs) =
     (if c = CHR ''/'' then [] # split_slash cs
      else (case split_slash cs of [] \<Rightarrow> [[c]] | s # ss \<Rightarrow> (c # s) # ss))"

text \<open>\<open>/^\.[^.]+/.test(name)\<close>: a dot, then at least one character that is not a dot.\<close>

fun dot_regex_test :: "string \<Rightarrow> bool" where
  "dot_regex_test (c # d # _) = (c = CHR ''.'' \<and> d \<noteq> CHR ''.'')"
| "dot_regex_test _ = False"

definition makeFilter :: "DetectorOptions \<Rightarrow> FileInfo \<Rightarrow> string \<Rightarrow> bool" where
  "makeFilter opts f p =
     (if ignoreDotFiles opts \<and>
         dot_regex_test (case name f of
                           None \<Rightarrow> last (split_slash p)
                         | Some n \<Rightarrow> if n \<noteq> [] then n else last (split_slash p))
      then False
      else if isFile f then
        (if \<not> test opts p then False
         else if ignore opts p then False
         else True)
      else True)"

text \<open>
  The filter's contract in the specification's words: the final segment is what follows
  the last slash, and a dot name is a dot followed by a character other than a dot.
\<close>

definition last_segment :: "string \<Rightarrow> string" where
  "last_segment p = rev (takeWhile (\<lambda>c. c \<noteq> CHR ''/'') (rev p))"

definition starts_dot_nondot :: "string \<Rightarrow> bool" where
  "starts_dot_nondot s = (2 \<le> length s \<and> s ! 0 = CHR ''.'' \<and> s ! 1 \<noteq> CHR ''.'')"

definition entry_name :: "FileInfo \<Rightarrow> string \<Rightarrow> string" where
  "entry_name f p = (case name f of None \<Rightarrow> last_segment p
                     | Some n \<Rightarrow> if n = [] then last_segment p else n)"


section \<open>Symlink chains (mod.ts, lines 319-338)\<close>

text \<open>
  \<open>statTraverse\<close> calls itself for as long as \<open>lstat\<close> reports a symlink, with no
  bound and no record of the paths it has seen. In the async routine every call goes
  on after an \<open>await\<close>, on a fresh stack, so a chain that never ends keeps it going
  for ever: the model is a partial function and \<open>None\<close> is a promise that is never
  settled. \<open>Inl\<close> is the rejection with the accessor's error.
\<close>

partial_function (option) statTraverse :: "filesystem \<Rightarrow> string \<Rightarrow> (exn + FileInfo) option" where
  "statTraverse fsys p =
     (case lstat fsys p of
        Inl e \<Rightarrow> Some (Inl e)
      | Inr info \<Rightarrow>
          if isSymlink info then
            (case readlink fsys p of
               Inl e \<Rightarrow> Some (Inl e)
             | Inr targetPath \<Rightarrow> statTraverse fsys targetPath)
          else Some (Inr (info\<lparr>path := str_or (path info) (Some p)\<rparr>)))"

declare statTraverse.simps [code]

text \<open>
  \<open>statTraverseSync\<close> has the same body on the blocking accessors, and there every hop
  is a nested call. Its first argument is the number of nested calls the stack still
  admits: when none is left the call throws \<open>RangeError\<close>, so the routine always
  returns or throws.
\<close>

fun statTraverseSync :: "nat \<Rightarrow> filesystem \<Rightarrow> string \<Rightarrow> exn + FileInfo" where
  "statTraverseSync 0 fsys p = Inl RangeError"
| "statTraverseSync (Suc n) fsys p =
     (case lstat fsys p of
        Inl e \<Rightarrow> Inl e
      | Inr info \<Rightarrow>
          if isSymlink info then
            (case readlink fsys p of
               Inl e \<Rightarrow> Inl e
             | Inr targetPath \<Rightarrow> statTraverseSync n fsys targetPath)
          else Inr (info\<lparr>path := str_or (path info) (Some p)\<rparr>))"


text \<open>
  A directory entry's \<open>path\<close> is \<open>string | null\<close>. The host cannot serialise a
  \<open>null\<close> path and throws a \<open>TypeError\<close>, which is not a \<open>DenoError\<close>.
\<close>

definition with_path :: "string option \<Rightarrow> (string \<Rightarrow> (exn + 'a) option) \<Rightarrow> (exn + 'a) option" where
  "with_path p k = (case p of None \<Rightarrow> Some (Inl (Error ''TypeError'')) | Some s \<Rightarrow> k s)"

section \<open>The tree walker and the differ (mod.ts, lines 218-316)\<close>

datatype target = Str string | Info FileInfo

text \<open>
  The \<open>try\<close> block of \<open>walk\<close> (lines 231-242): the result is \<open>(linkPath, path, info)\<close>,
  or the exception the block raised, or \<open>None\<close> when the promise it awaits is never
  settled.
\<close>

definition walk_resolve ::
  "filesystem \<Rightarrow> bool \<Rightarrow> target \<Rightarrow> (exn + string option \<times> string option \<times> FileInfo) option" where
  "walk_resolve fsys follow f =
     (case f of
        Str s \<Rightarrow>
          (case (if follow then statTraverse fsys s else Some (lstat fsys s)) of
             None \<Rightarrow> None
           | Some (Inl e) \<Rightarrow> Some (Inl e)
           | Some (Inr info) \<Rightarrow> Some (Inr (None, Some s, info)))
      | Info i \<Rightarrow>
          if isSymlink i \<and> follow then
            (case with_path (path i) (statTraverse fsys) of
               None \<Rightarrow> None
             | Some (Inl e) \<Rightarrow> Some (Inl e)
             | Some (Inr info) \<Rightarrow> Some (Inr (path i, path info, info)))
          else Some (Inr (None, path i, i)))"

text \<open>
  The \<open>try\<close> block of \<open>collect\<close> (lines 285-296), with the number of nested calls the
  stack admits from there.
\<close>

definition collect_resolve ::
  "nat \<Rightarrow> filesystem \<Rightarrow> bool \<Rightarrow> target \<Rightarrow> exn + string option \<times> string option \<times> FileInfo" where
  "collect_resolve n fsys follow f =
     (case f of
        Str s \<Rightarrow>
          (case (if follow then statTraverseSync n fsys s else lstat fsys s) of
             Inl e \<Rightarrow> Inl e
           | Inr info \<Rightarrow> Inr (None, Some s, info))
      | Info i \<Rightarrow>
          if isSymlink i \<and> follow then
            (case path i of
               None \<Rightarrow> Inl (Error ''TypeError'')
             | Some s \<Rightarrow>
                 (case readlink fsys s of
                    Inl e \<Rightarrow> Inl e
                  | Inr q \<Rightarrow>
                      (case statTraverseSync n fsys q of
                         Inl e \<Rightarrow> Inl e
                       | Inr info \<Rightarrow> Inr (path i, Some q, info))))
          else Inr (None, path i, i))"

text \<open>
  The three objects \<open>walk\<close> mutates. \<open>prev\<close> is the detector's own \<open>this.files\<close>:
  \<open>detectChanges\<close> passes the object itself, not a copy.
\<close>

record walk_state =
  prev :: snapshot
  curr :: snapshot
  changes :: Changes

text \<open>Lines 263-269: record the file and classify it against \<open>prev\<close>.\<close>

definition classify :: "string \<Rightarrow> FileInfo \<Rightarrow> walk_state \<Rightarrow> walk_state" where
  "classify p info st =
     (let curr' = AList.update p (js_or (FileInfo.modified info) (created info)) (curr st);
          c = changes st;
          c' = (if \<not> obj_truthy (prev st) p then c\<lparr>added := added c @ [p]\<rparr>
                else if obj_number (prev st) p < obj_number curr' p
                     then c\<lparr>modified := Changes.modified c @ [p]\<rparr>
                else c)
      in \<lparr>prev = AList.delete p (prev st), curr = curr', changes = c'\<rparr>)"

text \<open>Lines 260-269: the guard \<open>if (curr[path]) continue\<close>, then the above.\<close>

definition record_file :: "string \<Rightarrow> FileInfo \<Rightarrow> walk_state \<Rightarrow> walk_state" where
  "record_file p info st = (if obj_truthy (curr st) p then st else classify p info st)"

text \<open>
  Lines 250-259, what the loop does with a resolved entry: throw, go on to the next
  entry, list the directory, or record the file. None of this looks at the three
  objects.
\<close>

datatype action = Skip | Record string FileInfo | Descend string | Throw exn

definition visit ::
  "(FileInfo \<Rightarrow> string \<Rightarrow> bool) \<Rightarrow> string option \<times> string option \<times> FileInfo \<Rightarrow> action" where
  "visit flt r =
     (case r of (linkPath, po, info) \<Rightarrow>
        (case po of
           None \<Rightarrow> Throw (Error ''path not found'')
         | Some p \<Rightarrow>
             if p = [] then Throw (Error ''path not found'')
             else if \<not> flt info (case str_or linkPath po of None \<Rightarrow> p | Some q \<Rightarrow> q) then Skip
             else if isDirectory info then Descend p
             else if isFile info then Record p info
             else Skip))"

text \<open>
  \<open>walk\<close> is an async function: a call runs until its first \<open>await\<close> and returns a
  promise; the rest runs when what it awaits is settled, again until the next \<open>await\<close>.
  All calls run on one thread, so between two \<open>await\<close>s a call is not interrupted. A
  call of \<open>walk\<close> is a \<open>task\<close>: where it is suspended, the entries of \<open>targets\<close> after
  the current one, and its array \<open>promises\<close> (the sub-walks it has started, by their
  index in the list of all tasks). It is suspended at line 234 or 237 on the stat of an
  entry, at line 257 on the listing of a directory, or at line 272 on \<open>Promise.all\<close>;
  or its promise is settled, \<open>Settled None\<close> for fulfilled and \<open>Settled (Some e)\<close> for
  rejected with \<open>e\<close>.
\<close>

datatype position = AtStat target | AtReadDir string | AtAll | Settled "exn option"

record task =
  pos :: position
  todo :: "target list"
  promises :: "nat list"

text \<open>
  The loop of lines 227-271 from the head of an iteration up to the next \<open>await\<close>. A
  path string, and a symlink entry when symlinks are followed, is awaited in the \<open>try\<close>
  block; any other entry is its own \<open>info\<close> and is dealt with at once.
\<close>

fun run_loop ::
  "bool \<Rightarrow> (FileInfo \<Rightarrow> string \<Rightarrow> bool) \<Rightarrow> target list \<Rightarrow> walk_state \<Rightarrow>
   walk_state \<times> position \<times> target list" where
  "run_loop follow flt [] st = (st, AtAll, [])"
| "run_loop follow flt (Str s # rest) st = (st, AtStat (Str s), rest)"
| "run_loop follow flt (Info i # rest) st =
     (if isSymlink i \<and> follow then (st, AtStat (Info i), rest)
      else (case visit flt (None, path i, i) of
              Skip \<Rightarrow> run_loop follow flt rest st
            | Record p info \<Rightarrow> run_loop follow flt rest (record_file p info st)
            | Descend p \<Rightarrow> (st, AtReadDir p, rest)
            | Throw e \<Rightarrow> (st, Settled (Some e), rest)))"

text \<open>
  The loop from the point where the awaited stat is settled with \<open>r\<close> (lines 243-271):
  a \<open>NotFound\<close> goes on to the next entry, any other exception is thrown again.
\<close>

definition after_stat ::
  "bool \<Rightarrow> (FileInfo \<Rightarrow> string \<Rightarrow> bool) \<Rightarrow> exn + string option \<times> string option \<times> FileInfo \<Rightarrow>
   target list \<Rightarrow> walk_state \<Rightarrow> walk_state \<times> position \<times> target list" where
  "after_stat follow flt r rest st =
     (case r of
        Inl e \<Rightarrow>
          if e = DenoError NotFound then run_loop follow flt rest st
          else (st, Settled (Some e), rest)
      | Inr x \<Rightarrow>
          (case visit flt x of
             Skip \<Rightarrow> run_loop follow flt rest st
           | Record p info \<Rightarrow> run_loop follow flt rest (record_file p info st)
           | Descend p \<Rightarrow> (st, AtReadDir p, rest)
           | Throw e \<Rightarrow> (st, Settled (Some e), rest)))"

text \<open>
  A run of \<open>walk\<close>: the three objects and all the calls of \<open>walk\<close> made so far, the
  first one at index 0, a sub-walk after the call that started it.
\<close>

record run =
  state :: walk_state
  tasks :: "task list"

text \<open>
  The host settles what task \<open>i\<close> awaits, and the task runs up to its next \<open>await\<close>.
  After a stat this is \<open>after_stat\<close>. After a listing that failed the task's promise is
  rejected (line 257 is outside the \<open>try\<close>). After a listing that succeeded, line 258
  calls \<open>walk\<close> on the entries: the new task runs up to its first \<open>await\<close>, its promise
  is pushed on \<open>promises\<close>, and the loop of task \<open>i\<close> goes on.
\<close>

definition complete ::
  "filesystem \<Rightarrow> bool \<Rightarrow> (FileInfo \<Rightarrow> string \<Rightarrow> bool) \<Rightarrow> nat \<Rightarrow> run \<Rightarrow> run" where
  "complete fsys follow flt i r =
     (let t = tasks r ! i in
      case pos t of
        AtStat f \<Rightarrow>
          (case walk_resolve fsys follow f of
             None \<Rightarrow> r
           | Some x \<Rightarrow>
               (case after_stat follow flt x (todo t) (state r) of
                  (st', q, rest) \<Rightarrow>
                    \<lparr>state = st', tasks = (tasks r)[i := t\<lparr>pos := q, todo := rest\<rparr>]\<rparr>))
      | AtReadDir p \<Rightarrow>
          (case readDir fsys p of
             Inl e \<Rightarrow> r\<lparr>tasks := (tasks r)[i := t\<lparr>pos := Settled (Some e)\<rparr>]\<rparr>
           | Inr entries \<Rightarrow>
               (case run_loop follow flt (map Info entries) (state r) of
                  (st1, q1, rest1) \<Rightarrow>
                    (case run_loop follow flt (todo t) st1 of
                       (st2, q2, rest2) \<Rightarrow>
                         \<lparr>state = st2,
                          tasks = (tasks r)[i := \<lparr>pos = q2, todo = rest2,
                                                  promises = promises t @ [length (tasks r)]\<rparr>]
                                  @ [\<lparr>pos = q1, todo = rest1, promises = []\<rparr>]\<rparr>)))
      | _ \<Rightarrow> r)"

text \<open>
  \<open>await Promise.all(promises)\<close> (line 272), from where the sub-walks are: rejected
  with the reason of the first rejected one in the array, fulfilled when all are
  fulfilled, waiting otherwise.
\<close>

fun rejected :: "position \<Rightarrow> bool" where
  "rejected (Settled (Some e)) = True"
| "rejected _ = False"

definition Promise_all :: "position list \<Rightarrow> position" where
  "Promise_all qs =
     (case filter rejected qs of
        q # _ \<Rightarrow> q
      | [] \<Rightarrow> if list_all (\<lambda>q. q = Settled None) qs then Settled None else AtAll)"

text \<open>
  Once a promise is settled, the continuations waiting for it run before the host
  settles anything else. So after each completion every task at line 272 whose
  \<open>Promise.all\<close> is decided gets settled, and then the tasks waiting for it in turn. A
  sub-walk has a higher index than the task that started it: one pass from the last
  task down to the first does it. \<open>settle_task\<close> is given the positions of all tasks.
\<close>

definition settle_task :: "position list \<Rightarrow> task \<Rightarrow> task" where
  "settle_task qs t =
     (if pos t = AtAll then t\<lparr>pos := Promise_all (map (\<lambda>k. qs ! k) (promises t))\<rparr> else t)"

fun settle_below :: "nat \<Rightarrow> task list \<Rightarrow> task list" where
  "settle_below 0 ts = ts"
| "settle_below (Suc j) ts = settle_below j (ts[j := settle_task (map pos ts) (ts ! j)])"

definition settle :: "task list \<Rightarrow> task list" where
  "settle ts = settle_below (length ts) ts"

text \<open>
  The tasks whose awaited operation the host can complete: a listing, or a stat whose
  symlink chain ends.
\<close>

definition ready :: "filesystem \<Rightarrow> bool \<Rightarrow> task \<Rightarrow> bool" where
  "ready fsys follow t =
     (case pos t of
        AtStat f \<Rightarrow> walk_resolve fsys follow f \<noteq> None
      | AtReadDir p \<Rightarrow> True
      | _ \<Rightarrow> False)"

definition pending :: "filesystem \<Rightarrow> bool \<Rightarrow> run \<Rightarrow> nat list" where
  "pending fsys follow r = filter (\<lambda>i. ready fsys follow (tasks r ! i)) [0..<length (tasks r)]"

text \<open>
  The program does not decide in which order the host completes the operations that
  are pending. A schedule says it: one number for each turn of the event loop, which
  picks one of the pending operations (by its place in their list, modulo the length).
  A turn with nothing pending changes nothing.
\<close>

definition turn ::
  "filesystem \<Rightarrow> bool \<Rightarrow> (FileInfo \<Rightarrow> string \<Rightarrow> bool) \<Rightarrow> nat \<Rightarrow> run \<Rightarrow> run" where
  "turn fsys follow flt k r =
     (case pending fsys follow r of
        [] \<Rightarrow> r
      | i # is \<Rightarrow>
          (let r' = complete fsys follow flt ((i # is) ! (k mod length (i # is))) r
           in r'\<lparr>tasks := settle (tasks r')\<rparr>))"

fun turns ::
  "filesystem \<Rightarrow> bool \<Rightarrow> (FileInfo \<Rightarrow> string \<Rightarrow> bool) \<Rightarrow> nat list \<Rightarrow> run \<Rightarrow> run" where
  "turns fsys follow flt [] r = r"
| "turns fsys follow flt (k # sch) r = turns fsys follow flt sch (turn fsys follow flt k r)"

text \<open>
  The call \<open>walk(prev, curr, targets, followSymlink, filter, changes)\<close> up to its first
  \<open>await\<close>, and \<open>walk\<close>: the run after the call and the turns of the schedule.
\<close>

definition call_walk ::
  "bool \<Rightarrow> (FileInfo \<Rightarrow> string \<Rightarrow> bool) \<Rightarrow> target list \<Rightarrow> walk_state \<Rightarrow> run" where
  "call_walk follow flt ts st =
     (case run_loop follow flt ts st of
        (st', q, rest) \<Rightarrow>
          \<lparr>state = st', tasks = settle [\<lparr>pos = q, todo = rest, promises = []\<rparr>]\<rparr>)"

definition walk ::
  "filesystem \<Rightarrow> bool \<Rightarrow> (FileInfo \<Rightarrow> string \<Rightarrow> bool) \<Rightarrow> nat list \<Rightarrow> target list \<Rightarrow>
   walk_state \<Rightarrow> run" where
  "walk fsys follow flt sch ts st = turns fsys follow flt sch (call_walk follow flt ts st)"

text \<open>
  \<open>collect\<close> runs on the blocking accessors, so an exception anywhere ends the whole
  pass at once. \<open>all\<close> is \<open>this.files\<close> itself and keeps what was stored before. The
  first argument is the number of nested calls the stack admits, this call of
  \<open>collect\<close> included; a directory below a directory is a nested call.
\<close>

fun collect ::
  "nat \<Rightarrow> filesystem \<Rightarrow> bool \<Rightarrow> (FileInfo \<Rightarrow> string \<Rightarrow> bool) \<Rightarrow> target list \<Rightarrow>
   snapshot \<Rightarrow> snapshot \<times> exn option" where
  "collect 0 fsys follow flt ts al = (al, Some RangeError)"
| "collect (Suc n) fsys follow flt [] al = (al, None)"
| "collect (Suc n) fsys follow flt (f # rest) al =
     (case collect_resolve n fsys follow f of
        Inl e \<Rightarrow>
          if e = DenoError NotFound then collect (Suc n) fsys follow flt rest al
          else (al, Some e)
      | Inr x \<Rightarrow>
          (case visit flt x of
             Skip \<Rightarrow> collect (Suc n) fsys follow flt rest al
           | Record p info \<Rightarrow>
               collect (Suc n) fsys follow flt rest
                 (AList.update p (js_or (FileInfo.modified info) (created info)) al)
           | Descend p \<Rightarrow>
               (case readDir fsys p of
                  Inl e \<Rightarrow> (al, Some e)
                | Inr entries \<Rightarrow>
                    (case collect n fsys follow flt (map Info entries) al of
                       (al', Some e) \<Rightarrow> (al', Some e)
                     | (al', None) \<Rightarrow> collect (Suc n) fsys follow flt rest al'))
           | Throw e \<Rightarrow> (al, Some e)))"

section \<open>The detector (mod.ts, lines 158-193)\<close>

record Detector =
  files :: snapshot
  targets :: "string list"
  options :: DetectorOptions

definition new_Detector :: "string list \<Rightarrow> DetectorOptions \<Rightarrow> Detector" where
  "new_Detector ts opts = \<lparr>files = [], targets = ts, options = opts\<rparr>"

text \<open>
  \<open>init\<close> takes the stack it may use and the two readings of \<open>Date.now()\<close>, and
  returns the detector as the call leaves it, with the report or the exception.
\<close>

definition init ::
  "nat \<Rightarrow> filesystem \<Rightarrow> int \<Rightarrow> int \<Rightarrow> Detector \<Rightarrow> Detector \<times> (exn + Changes)" where
  "init n fsys t0 t1 d =
     (case collect n fsys (followSymlink (options d)) (makeFilter (options d))
             (map Str (targets d)) (files d) of
        (al, Some e) \<Rightarrow> (d\<lparr>files := al\<rparr>, Inl e)
      | (al, None) \<Rightarrow>
          (d\<lparr>files := al\<rparr>,
           Inr (new_Changes\<lparr>startTime := t0, fileCount := length (Object_keys al),
                             endTime := t1\<rparr>)))"

text \<open>
  The run of \<open>walk\<close> inside \<open>detectChanges\<close> (lines 175-186) after the turns of a
  schedule: \<open>prev\<close> is \<open>this.files\<close> and \<open>curr\<close> is \<open>newFiles\<close>.
\<close>

definition cycle :: "filesystem \<Rightarrow> int \<Rightarrow> nat list \<Rightarrow> Detector \<Rightarrow> run" where
  "cycle fsys t0 sch d =
     walk fsys (followSymlink (options d)) (makeFilter (options d)) sch (map Str (targets d))
       \<lparr>prev = files d, curr = [], changes = new_Changes\<lparr>startTime := t0\<rparr>\<rparr>"

text \<open>
  \<open>detectChanges\<close> after the turns of a schedule: \<open>None\<close> while its promise is not
  settled, else the detector as it then is, with the report or the exception. When
  \<open>walk\<close> is fulfilled no task is left and lines 187-191 run at once; \<open>t1\<close> is their
  reading of the clock. When \<open>walk\<close> is rejected \<open>this.files\<close> is still the object
  passed as \<open>prev\<close>, which the sub-walks that are not settled go on changing.
\<close>

definition detectChanges ::
  "filesystem \<Rightarrow> int \<Rightarrow> int \<Rightarrow> nat list \<Rightarrow> Detector \<Rightarrow> (Detector \<times> (exn + Changes)) option" where
  "detectChanges fsys t0 t1 sch d =
     (let r = cycle fsys t0 sch d; st = state r in
      case pos (tasks r ! 0) of
        Settled None \<Rightarrow>
          Some (d\<lparr>files := curr st\<rparr>,
                Inr ((changes st)\<lparr>deleted := deleted (changes st) @ Object_keys (prev st),
                                   fileCount := length (Object_keys (curr st)),
                                   endTime := t1\<rparr>))
      | Settled (Some e) \<Rightarrow> Some (d\<lparr>files := prev st\<rparr>, Inl e)
      | _ \<Rightarrow> None)"


section \<open>The polling loop and its cancellation (mod.ts, lines 108-155)\<close>

text \<open>
  \<open>run\<close> is an async generator and \<open>start\<close> drives it from an async loop; both run on
  one thread and give up control only at an \<open>await\<close> or a \<open>yield\<close>. The model is the
  state those two share and a step per event that lets one of them go on:
  \<^item> \<open>Waiting\<close>: \<open>run\<close> is at line 144, waiting for the timer it has just set;
  \<^item> \<open>Scanning\<close>: \<open>run\<close> is at line 149, waiting for \<open>detectChanges\<close>;
  \<^item> \<open>Delivering\<close>: \<open>run\<close> has yielded at line 152 and the loop of \<open>start\<close> is at
    line 115, waiting for the callback;
  \<^item> \<open>Finished\<close>: the \<open>while\<close> of line 142 has ended and the promise \<open>loop\<close> is
    fulfilled; \<open>Failed\<close>: a scan or the callback has thrown and \<open>loop\<close> is rejected.

  \<open>abort\<close> and \<open>timeout\<close> are the fields of \<open>state\<close> (\<open>timeout\<close> holds a timer handle or
  \<open>null\<close>; a handle is truthy); \<open>timer_armed\<close> says that the host will still fire the
  timer. \<open>cancellation\<close> is the promise the cancellation handle returned. The lists
  \<open>waits\<close> and \<open>delivered\<close> and the counter \<open>scans\<close> record what the loop has done: the
  delay of each \<open>setTimeout\<close>, the reports handed to the consumer, and the calls of
  \<open>detectChanges\<close>.
\<close>

datatype phase = Waiting | Scanning | Delivering | Finished | Failed

datatype cancellation = NotInvoked | AwaitingLoop | Resolved | Rejected

record scheduler =
  abort :: bool
  timeout :: bool
  timer_armed :: bool
  phase :: phase
  lastStartTime :: int
  waits :: "int list"
  scans :: nat
  delivered :: "Changes list"
  cancellation :: cancellation

datatype event =
    TimerFires int
  | ScanResolves Changes int
  | ScanRejects exn
  | CallbackResolves int
  | CallbackRejects exn
  | Cancel

text \<open>
  Lines 142-146, reached with the reading \<open>now\<close> of \<open>Date.now()\<close>: leave the loop when
  \<open>abort\<close> is set, else set the timer. A handle that waits for \<open>loop\<close> is settled when
  the loop ends.
\<close>

definition loop_head :: "int \<Rightarrow> int \<Rightarrow> scheduler \<Rightarrow> scheduler" where
  "loop_head interval now s =
     (if abort s
      then s\<lparr>phase := Finished,
             cancellation := (if cancellation s = AwaitingLoop then Resolved else cancellation s)\<rparr>
      else s\<lparr>phase := Waiting, timeout := True, timer_armed := True,
             waits := waits s @ [max 0 (interval - (now - lastStartTime s))]\<rparr>)"

definition loop_fails :: "scheduler \<Rightarrow> scheduler" where
  "loop_fails s =
     s\<lparr>phase := Failed,
       cancellation := (if cancellation s = AwaitingLoop then Rejected else cancellation s)\<rparr>"

text \<open>
  One event each: the timer fires (lines 147-149); the scan is settled (lines 150-153);
  the callback is settled (line 115); the cancellation handle is invoked (lines
  118-125). \<open>None\<close> is an event that cannot happen in the state.
\<close>

fun step :: "int \<Rightarrow> event \<Rightarrow> scheduler \<Rightarrow> scheduler option" where
  "step interval (TimerFires now) s =
     (if phase s = Waiting \<and> timer_armed s
      then Some (s\<lparr>timer_armed := False, timeout := False, lastStartTime := now,
                   phase := Scanning, scans := Suc (scans s)\<rparr>)
      else None)"
| "step interval (ScanResolves c now) s =
     (if phase s = Scanning
      then (if changes_length c \<noteq> 0
            then Some (s\<lparr>lastStartTime := startTime c, phase := Delivering,
                         delivered := delivered s @ [c]\<rparr>)
            else Some (loop_head interval now (s\<lparr>lastStartTime := startTime c\<rparr>)))
      else None)"
| "step interval (ScanRejects e) s =
     (if phase s = Scanning then Some (loop_fails s) else None)"
| "step interval (CallbackResolves now) s =
     (if phase s = Delivering then Some (loop_head interval now s) else None)"
| "step interval (CallbackRejects e) s =
     (if phase s = Delivering then Some (loop_fails s) else None)"
| "step interval Cancel s =
     Some (if timeout s
           then s\<lparr>abort := True, timer_armed := False, cancellation := Resolved\<rparr>
           else s\<lparr>abort := True,
                  cancellation := (if phase s = Finished then Resolved
                                   else if phase s = Failed then Rejected
                                   else AwaitingLoop)\<rparr>)"

fun exec :: "int \<Rightarrow> event list \<Rightarrow> scheduler \<Rightarrow> scheduler option" where
  "exec interval [] s = Some s"
| "exec interval (e # es) s =
     (case step interval e s of None \<Rightarrow> None | Some s' \<Rightarrow> exec interval es s')"

text \<open>
  The state when \<open>start\<close> returns: \<open>init\<close> has run, with \<open>startTime\<close> its first reading
  of the clock, and the first timer is set.
\<close>

definition start :: "int \<Rightarrow> int \<Rightarrow> int \<Rightarrow> scheduler" where
  "start interval initStart now =
     loop_head interval now
       \<lparr>abort = False, timeout = False, timer_armed = False, phase = Waiting,
        lastStartTime = initStart, waits = [], scans = 0, delivered = [],
        cancellation = NotInvoked\<rparr>"

text \<open>The reports of the scans that were settled, in order.\<close>

fun reports :: "event list \<Rightarrow> Changes list" where
  "reports [] = []"
| "reports (ScanResolves c now # es) = c # reports es"
| "reports (e # es) = reports es"

text \<open>What holds in every state the loop reaches.\<close>

definition sched_inv :: "scheduler \<Rightarrow> bool" where
  "sched_inv s =
     ((timer_armed s \<longrightarrow> phase s = Waiting \<and> timeout s \<and> \<not> abort s) \<and>
      (phase s \<noteq> Waiting \<longrightarrow> \<not> timeout s) \<and>
      (cancellation s \<noteq> NotInvoked \<longrightarrow> abort s) \<and>
      (phase s = Scanning \<or> phase s = Delivering \<longrightarrow> cancellation s \<noteq> Resolved))"


section \<open>A walk without one entry\<close>

text \<open>
  To compare a walk with the walk that never meets the entry \<open>i\<close>: the target list
  without \<open>i\<close>, a run with \<open>i\<close> taken out of the entries every task still has before
  it, and a file system whose listings do not contain \<open>i\<close>. \<open>same_listings\<close> relates two
  file systems that differ at most in whether their listings contain \<open>i\<close>.
\<close>

definition without :: "FileInfo \<Rightarrow> target list \<Rightarrow> target list" where
  "without i ts = filter (\<lambda>f. f \<noteq> Info i) ts"

definition erase_task :: "FileInfo \<Rightarrow> task \<Rightarrow> task" where
  "erase_task i t = \<lparr>pos = pos t, todo = without i (todo t), promises = promises t\<rparr>"

definition erase :: "FileInfo \<Rightarrow> run \<Rightarrow> run" where
  "erase i r = \<lparr>state = state r, tasks = map (erase_task i) (tasks r)\<rparr>"

definition drop_entry :: "FileInfo \<Rightarrow> filesystem \<Rightarrow> filesystem" where
  "drop_entry i fsys =
     fsys\<lparr>readDir := (\<lambda>q. case readDir fsys q of
                            Inl e \<Rightarrow> Inl e
                          | Inr es \<Rightarrow> Inr (filter (\<lambda>e. e \<noteq> i) es))\<rparr>"

definition same_listings :: "FileInfo \<Rightarrow> filesystem \<Rightarrow> filesystem \<Rightarrow> bool" where
  "same_listings i fs1 fs2 =
     (lstat fs1 = lstat fs2 \<and>
      (\<forall>q. case readDir fs1 q of
              Inl e \<Rightarrow> readDir fs2 q = Inl e
            | Inr es \<Rightarrow> (\<exists>es'. readDir fs2 q = Inr es' \<and>
                           filter (\<lambda>e. e \<noteq> i) es = filter (\<lambda>e. e \<noteq> i) es')))"


section \<open>Concrete file systems\<close>

text \<open>What \<open>lstat\<close> answers: no \<open>name\<close> and no \<open>path\<close>.\<close>

definition stat_info :: "kind \<Rightarrow> time \<Rightarrow> time \<Rightarrow> FileInfo" where
  "stat_info k m c = \<lparr>name = None, path = None, kind = k, FileInfo.modified = m, created = c\<rparr>"

text \<open>An entry of a directory listing: it carries its name and its path.\<close>

definition dir_entry :: "string \<Rightarrow> string \<Rightarrow> kind \<Rightarrow> time \<Rightarrow> time \<Rightarrow> FileInfo" where
  "dir_entry n p k m c = \<lparr>name = Some n, path = Some p, kind = k, FileInfo.modified = m, created = c\<rparr>"



text \<open>
  A file \<open>a\<close> and a path \<open>b\<close> that \<open>lstat\<close> refuses with \<open>PermissionDenied\<close>; a
  detector on both whose snapshot holds \<open>a\<close>.
\<close>

definition denied_fs :: filesystem where
  "denied_fs =
     \<lparr>lstat = (\<lambda>s. if s = ''a'' then Inr (stat_info File (Some 5) None)
                    else if s = ''b'' then Inl (DenoError PermissionDenied)
                    else Inl (DenoError NotFound)),
      readlink = (\<lambda>s. Inl (DenoError NotFound)),
      readDir = (\<lambda>s. Inl (DenoError NotFound))\<rparr>"

definition denied_detector :: Detector where
  "denied_detector =
     \<lparr>files = [(''a'', Some 5)], targets = [''a'', ''b''], options = defaultOptions\<rparr>"

text \<open>
  A directory \<open>d\<close> that lists a file \<open>d/f\<close> and a symlink \<open>d/l\<close> to it.
\<close>

definition listing_fs :: filesystem where
  "listing_fs =
     \<lparr>lstat = (\<lambda>s. if s = ''d'' then Inr (stat_info Directory (Some 3) None)
                    else if s = ''d/f'' then Inr (stat_info File (Some 5) None)
                    else if s = ''d/l'' then Inr (stat_info Symlink (Some 4) None)
                    else Inl (DenoError NotFound)),
      readlink = (\<lambda>s. if s = ''d/l'' then Inr ''d/f'' else Inl (DenoError NotFound)),
      readDir = (\<lambda>s. if s = ''d''
                      then Inr [dir_entry ''f'' ''d/f'' File (Some 5) None,
                                dir_entry ''l'' ''d/l'' Symlink (Some 4) None]
                      else Inl (DenoError NotFound))\<rparr>"

text \<open>The state a walk starts in when the detector knows no file.\<close>

definition empty_state :: walk_state where
  "empty_state = \<lparr>prev = [], curr = [], changes = new_Changes\<rparr>"

text \<open>
  A single file \<open>f\<close> with the given modification and creation times.
\<close>

definition single_file_fs :: "time \<Rightarrow> time \<Rightarrow> filesystem" where
  "single_file_fs m c =
     \<lparr>lstat = (\<lambda>s. if s = ''f'' then Inr (stat_info File m c) else Inl (DenoError NotFound)),
      readlink = (\<lambda>s. Inl (DenoError NotFound)),
      readDir = (\<lambda>s. Inl (DenoError NotFound))\<rparr>"

text \<open>
  A directory \<open>d\<close> whose only entry is a symlink \<open>d/l2\<close>, which points at the symlink
  \<open>x/l1\<close>, which points at the file \<open>x/f\<close>.
\<close>

definition chain_fs :: filesystem where
  "chain_fs =
     \<lparr>lstat = (\<lambda>s. if s = ''d'' then Inr (stat_info Directory (Some 3) None)
                    else if s = ''d/l2'' then Inr (stat_info Symlink (Some 4) None)
                    else if s = ''x/l1'' then Inr (stat_info Symlink (Some 4) None)
                    else if s = ''x/f'' then Inr (stat_info File (Some 5) None)
                    else Inl (DenoError NotFound)),
      readlink = (\<lambda>s. if s = ''d/l2'' then Inr ''x/l1''
                       else if s = ''x/l1'' then Inr ''x/f''
                       else Inl (DenoError NotFound)),
      readDir = (\<lambda>s. if s = ''d'' then Inr [dir_entry ''l2'' ''d/l2'' Symlink (Some 4) None]
                      else Inl (DenoError NotFound))\<rparr>"

text \<open>
  A directory \<open>d\<close> with two symlinks \<open>d/l1\<close> and \<open>d/l2\<close> to the same file \<open>x/f\<close>, which
  has the given times.
\<close>

definition two_links_fs :: "time \<Rightarrow> time \<Rightarrow> filesystem" where
  "two_links_fs m c =
     \<lparr>lstat = (\<lambda>s. if s = ''d'' then Inr (stat_info Directory (Some 3) None)
                    else if s = ''d/l1'' \<or> s = ''d/l2'' then Inr (stat_info Symlink (Some 4) None)
                    else if s = ''x/f'' then Inr (stat_info File m c)
                    else Inl (DenoError NotFound)),
      readlink = (\<lambda>s. if s = ''d/l1'' \<or> s = ''d/l2'' then Inr ''x/f''
                       else Inl (DenoError NotFound)),
      readDir = (\<lambda>s. if s = ''d'' then Inr [dir_entry ''l1'' ''d/l1'' Symlink (Some 4) None,
                                              dir_entry ''l2'' ''d/l2'' Symlink (Some 4) None]
                      else Inl (DenoError NotFound))\<rparr>"

definition follow_options :: DetectorOptions where
  "follow_options = defaultOptions\<lparr>followSymlink := True\<rparr>"

text \<open>
  A directory \<open>d\<close> with a file \<open>d/f\<close> and a directory \<open>d/s\<close> that holds the file
  \<open>d/s/g\<close>, and a path \<open>b\<close> that \<open>lstat\<close> refuses; a detector on \<open>d\<close> and \<open>b\<close> whose
  snapshot holds the two files.
\<close>

definition nested_fs :: filesystem where
  "nested_fs =
     \<lparr>lstat = (\<lambda>s. if s = ''d'' then Inr (stat_info Directory (Some 3) None)
                    else if s = ''d/f'' then Inr (stat_info File (Some 5) None)
                    else if s = ''d/s'' then Inr (stat_info Directory (Some 3) None)
                    else if s = ''d/s/g'' then Inr (stat_info File (Some 6) None)
                    else if s = ''b'' then Inl (DenoError PermissionDenied)
                    else Inl (DenoError NotFound)),
      readlink = (\<lambda>s. Inl (DenoError NotFound)),
      readDir = (\<lambda>s. if s = ''d''
                      then Inr [dir_entry ''f'' ''d/f'' File (Some 5) None,
                                dir_entry ''s'' ''d/s'' Directory (Some 3) None]
                      else if s = ''d/s'' then Inr [dir_entry ''g'' ''d/s/g'' File (Some 6) None]
                      else Inl (DenoError NotFound))\<rparr>"

definition nested_detector :: Detector where
  "nested_detector =
     \<lparr>files = [(''d/f'', Some 5), (''d/s/g'', Some 6)], targets = [''d'', ''b''],
      options = defaultOptions\<rparr>"


section \<open>The filter\<close>

lemma split_slash_not_Nil: "split_slash p \<noteq> []"
  by (induction p) (auto split: list.splits)

lemma split_slash_no_slash: "CHR ''/'' \<notin> set p \<Longrightarrow> split_slash p = [p]"
  by (induction p) auto

lemma length_split_slash:
  "length (split_slash p) = Suc (length (filter (\<lambda>c. c = CHR ''/'') p))"
  by (induction p) (auto split: list.splits)

lemma last_split_slash_Cons:
  assumes "CHR ''/'' \<in> set cs"
  shows "last (split_slash (c # cs)) = last (split_slash cs)"
proof -
  from assms have "filter (\<lambda>c. c = CHR ''/'') cs \<noteq> []"
    by (simp add: filter_empty_conv)
  then have "2 \<le> length (split_slash cs)"
    by (cases "filter (\<lambda>c. c = CHR ''/'') cs") (simp_all add: length_split_slash)
  then obtain s t ss where "split_slash cs = s # t # ss"
    by (cases "split_slash cs"; cases "tl (split_slash cs)") auto
  then show ?thesis by simp
qed

lemma last_segment_no_slash: "CHR ''/'' \<notin> set p \<Longrightarrow> last_segment p = p"
proof -
  assume "CHR ''/'' \<notin> set p"
  then have "takeWhile (\<lambda>c. c \<noteq> CHR ''/'') (rev p) = rev p"
    by (intro takeWhile_eq_all_conv[THEN iffD2]) auto
  then show ?thesis unfolding last_segment_def by (simp only: rev_rev_ident)
qed

lemma last_segment_slash: "CHR ''/'' \<notin> set cs \<Longrightarrow> last_segment (CHR ''/'' # cs) = cs"
proof -
  assume "CHR ''/'' \<notin> set cs"
  then have "takeWhile (\<lambda>c. c \<noteq> CHR ''/'') (rev cs @ [CHR ''/'']) = rev cs @ takeWhile (\<lambda>c. c \<noteq> CHR ''/'') [CHR ''/'']"
    by (intro takeWhile_append2) auto
  then show ?thesis unfolding last_segment_def by simp
qed

lemma last_segment_Cons:
  "CHR ''/'' \<in> set cs \<Longrightarrow> last_segment (c # cs) = last_segment cs"
  by (simp add: last_segment_def takeWhile_append1)

lemma last_split_slash: "last (split_slash p) = last_segment p"
proof (induction p)
  case Nil
  show ?case by (simp add: last_segment_def)
next
  case (Cons c cs)
  show ?case
  proof (cases "CHR ''/'' \<in> set cs")
    case True
    then show ?thesis using Cons by (simp only: last_split_slash_Cons last_segment_Cons)
  next
    case False
    show ?thesis
    proof (cases "c = CHR ''/''")
      case True
      with False show ?thesis
        by (simp add: split_slash_no_slash last_segment_slash)
    next
      case False
      with \<open>CHR ''/'' \<notin> set cs\<close> have "CHR ''/'' \<notin> set (c # cs)" by simp
      then show ?thesis
        using split_slash_no_slash[of "c # cs"] last_segment_no_slash[of "c # cs"] by simp
    qed
  qed
qed

lemma dot_regex_test_eq: "dot_regex_test s = starts_dot_nondot s"
  by (cases s rule: dot_regex_test.cases) (simp_all add: starts_dot_nondot_def)

text \<open>
  Claim C4. The filter rejects an entry, file or directory, whose name (or, when the
  entry has no name, the last segment of the given path) starts with a dot followed by
  a character other than a dot, if dotfile exclusion is on; past that, a regular file
  passes exactly when the path matches \<open>test\<close> and does not match \<open>ignore\<close>, and
  an entry that is not a regular file passes whatever the two patterns say.
\<close>

theorem makeFilter_contract:
  "makeFilter opts f p =
     (\<not> (ignoreDotFiles opts \<and> starts_dot_nondot (entry_name f p)) \<and>
      (isFile f \<longrightarrow> test opts p \<and> \<not> ignore opts p))"
  by (auto simp: makeFilter_def entry_name_def last_split_slash dot_regex_test_eq split: option.splits)


theorem makeFilter_contract_witness:
  "isFile (dir_entry ''a.ts'' ''src/a.ts'' File (Some 5) None) \<and>
   makeFilter defaultOptions (dir_entry ''a.ts'' ''src/a.ts'' File (Some 5) None) ''src/a.ts'' \<and>
   \<not> makeFilter defaultOptions (dir_entry ''.git'' ''src/.git'' Directory (Some 5) None) ''src/.git'' \<and>
   \<not> makeFilter (defaultOptions\<lparr>ignore := (\<lambda>s. s = ''src/a.ts'')\<rparr>)
        (dir_entry ''a.ts'' ''src/a.ts'' File (Some 5) None) ''src/a.ts''"
  using makeFilter_contract [of defaultOptions "dir_entry ''a.ts'' ''src/a.ts'' File (Some 5) None" "''src/a.ts''"]
    makeFilter_contract [of defaultOptions "dir_entry ''.git'' ''src/.git'' Directory (Some 5) None" "''src/.git''"]
    makeFilter_contract [of "defaultOptions\<lparr>ignore := (\<lambda>s. s = ''src/a.ts'')\<rparr>"
      "dir_entry ''a.ts'' ''src/a.ts'' File (Some 5) None" "''src/a.ts''"]
  by (simp add: dir_entry_def defaultOptions_def isFile_def entry_name_def starts_dot_nondot_def)


section \<open>Symlink chains\<close>













section \<open>Evaluating the model\<close>

lemmas model_defs =
  detectChanges_def cycle_def walk_def call_walk_def turn_def pending_def ready_def complete_def
  after_stat_def visit_def record_file_def settle_def settle_task_def Promise_all_def
  init_def walk_resolve_def collect_resolve_def makeFilter_def
  isFile_def isDirectory_def isSymlink_def str_or_def truthy_str_def js_or_def truthy_def
  classify_def obj_truthy_def obj_number_def to_number_def new_Changes_def Object_keys_def
  with_path_def stat_info_def dir_entry_def defaultOptions_def new_Detector_def

lemma turns_idle: "pending fsys follow r = [] \<Longrightarrow> turns fsys follow flt sch r = r"
  by (induction sch) (simp_all add: turn_def)

lemma turns_append:
  "turns fsys follow flt (xs @ ys) r = turns fsys follow flt ys (turns fsys follow flt xs r)"
  by (induction xs arbitrary: r) simp_all

lemma cycle_idle:
  "pending fsys (followSymlink (options d)) (cycle fsys t0 xs d) = [] \<Longrightarrow>
   cycle fsys t0 (xs @ ys) d = cycle fsys t0 xs d"
  by (simp add: cycle_def walk_def turns_append turns_idle)

lemma detectChanges_idle:
  "pending fsys (followSymlink (options d)) (cycle fsys t0 xs d) = [] \<Longrightarrow>
   detectChanges fsys t0 t1 (xs @ ys) d = detectChanges fsys t0 t1 xs d"
  by (simp add: detectChanges_def cycle_idle)

lemma length_settle_below [simp]: "length (settle_below j ts) = length ts"
  by (induction j arbitrary: ts) simp_all

lemma length_settle [simp]: "length (settle ts) = length ts"
  by (simp add: settle_def)


section \<open>What a walk does to the previous snapshot\<close>

text \<open>
  What holds of the three objects when \<open>walk\<close> is called and still holds after a file
  is recorded, holds after any turns of any schedule.
\<close>

lemma run_loop_state:
  assumes step: "\<And>p info s. Q s \<Longrightarrow> Q (record_file p info s)"
  shows "run_loop follow flt ts st = (st', q, rest) \<Longrightarrow> Q st \<Longrightarrow> Q st'"
  by (induction follow flt ts st rule: run_loop.induct)
     (auto split: action.splits if_splits intro: step)

lemma after_stat_state:
  assumes step: "\<And>p info s. Q s \<Longrightarrow> Q (record_file p info s)"
  shows "after_stat follow flt x ts st = (st', q, rest) \<Longrightarrow> Q st \<Longrightarrow> Q st'"
  unfolding after_stat_def
  using run_loop_state[where Q = Q, OF step] step
  by (auto split: sum.splits action.splits if_splits; blast)

lemma complete_state:
  assumes step: "\<And>p info s. Q s \<Longrightarrow> Q (record_file p info s)"
  shows "Q (state r) \<Longrightarrow> Q (state (complete fsys follow flt i r))"
  unfolding complete_def Let_def
  using after_stat_state[where Q = Q, OF step] run_loop_state[where Q = Q, OF step]
  by (auto split: position.splits option.splits sum.splits prod.splits; blast)

lemma turn_state:
  assumes step: "\<And>p info s. Q s \<Longrightarrow> Q (record_file p info s)"
  shows "Q (state r) \<Longrightarrow> Q (state (turn fsys follow flt k r))"
  unfolding turn_def Let_def
  by (auto split: list.splits intro: complete_state[where Q = Q, OF step])

lemma turns_state:
  assumes step: "\<And>p info s. Q s \<Longrightarrow> Q (record_file p info s)"
  shows "Q (state r) \<Longrightarrow> Q (state (turns fsys follow flt sch r))"
  by (induction sch arbitrary: r) (auto intro: turn_state[where Q = Q, OF step])

lemma walk_state_inv:
  assumes step: "\<And>p info s. Q s \<Longrightarrow> Q (record_file p info s)"
  shows "Q st \<Longrightarrow> Q (state (walk fsys follow flt sch ts st))"
  unfolding walk_def call_walk_def
  using run_loop_state[where Q = Q, OF step]
  by (auto split: prod.splits intro!: turns_state[where Q = Q, OF step])

lemma consumed_record_file:
  "prev st = filter (\<lambda>kv. fst kv \<notin> set (Object_keys (curr st))) P \<Longrightarrow>
   prev (record_file p info st) =
     filter (\<lambda>kv. fst kv \<notin> set (Object_keys (curr (record_file p info st)))) P"
  by (auto simp: record_file_def classify_def Let_def Object_keys_def
      AList.delete_eq dom_update intro: filter_cong)

lemma reported_record_file:
  "set (added (changes st)) \<union> set (Changes.modified (changes st)) \<subseteq> set (Object_keys (curr st)) \<Longrightarrow>
   set (added (changes (record_file p info st))) \<union>
   set (Changes.modified (changes (record_file p info st))) \<subseteq>
     set (Object_keys (curr (record_file p info st)))"
  by (auto simp: record_file_def classify_def Let_def Object_keys_def dom_update)

lemma cycle_consumed:
  "prev (state (cycle fsys t0 sch d)) =
     filter (\<lambda>kv. fst kv \<notin> set (Object_keys (curr (state (cycle fsys t0 sch d))))) (files d)"
  unfolding cycle_def
  by (rule walk_state_inv[where Q = "\<lambda>s. prev s = filter (\<lambda>kv. fst kv \<notin> set (Object_keys (curr s))) (files d)"])
     (simp_all add: consumed_record_file Object_keys_def)

lemma cycle_reported:
  "set (added (changes (state (cycle fsys t0 sch d)))) \<union>
   set (Changes.modified (changes (state (cycle fsys t0 sch d)))) \<subseteq>
     set (Object_keys (curr (state (cycle fsys t0 sch d))))"
  unfolding cycle_def
proof (rule walk_state_inv[where Q = "\<lambda>s. set (added (changes s)) \<union> set (Changes.modified (changes s))
         \<subseteq> set (Object_keys (curr s))"])
  fix p info and s :: walk_state
  assume "set (added (changes s)) \<union> set (Changes.modified (changes s)) \<subseteq> set (Object_keys (curr s))"
  then show "set (added (changes (record_file p info s))) \<union>
      set (Changes.modified (changes (record_file p info s))) \<subseteq>
      set (Object_keys (curr (record_file p info s)))"
    by (rule reported_record_file)
qed (simp add: new_Changes_def)

text \<open>
  Claim C5 as stated fails: \<open>walk\<close> deletes from the detector's own \<open>files\<close>. With
  \<open>a\<close> consumed and \<open>lstat\<close> of \<open>b\<close> refused, \<open>detectChanges\<close> ends with the error
  and the snapshot, \<open>a\<close> before the call, is empty after it.
\<close>

theorem detectChanges_abort_mutates_snapshot:
  "files denied_detector = [(''a'', Some 5)] \<and>
   detectChanges denied_fs 10 20 [0, 0] denied_detector =
     Some (denied_detector\<lparr>files := []\<rparr>, Inl (DenoError PermissionDenied))"
  by (simp add: denied_fs_def denied_detector_def model_defs)

text \<open>
  Claim C5, amended. The diff deletes the consumed paths from the detector's own
  snapshot; there is no working copy. At every moment of a cycle, whatever the
  schedule, the object that was the snapshot before the call holds what it held then
  without the paths recorded in the new mapping so far, the rest unchanged and in its
  order; the paths reported as added or modified so far are among those. When
  \<open>detectChanges\<close> has ended with an error that object is still the detector's
  snapshot, also while sub-walks that are not settled go on consuming paths. The new
  mapping becomes the snapshot when the cycle completes, and only then.
\<close>

theorem detectChanges_abort_snapshot:
  "prev (state (cycle fsys t0 sch d)) =
     filter (\<lambda>kv. fst kv \<notin> set (Object_keys (curr (state (cycle fsys t0 sch d))))) (files d) \<and>
   set (added (changes (state (cycle fsys t0 sch d)))) \<union>
   set (Changes.modified (changes (state (cycle fsys t0 sch d)))) \<subseteq>
     set (Object_keys (curr (state (cycle fsys t0 sch d)))) \<and>
   (detectChanges fsys t0 t1 sch d = Some (d', Inl e) \<longrightarrow>
      d' = d\<lparr>files := filter (\<lambda>kv. fst kv \<notin> set (Object_keys (curr (state (cycle fsys t0 sch d)))))
                         (files d)\<rparr>) \<and>
   (detectChanges fsys t0 t1 sch d = Some (d', Inr c) \<longrightarrow>
      d' = d\<lparr>files := curr (state (cycle fsys t0 sch d))\<rparr>)"
proof (intro conjI impI)
  show "prev (state (cycle fsys t0 sch d)) =
     filter (\<lambda>kv. fst kv \<notin> set (Object_keys (curr (state (cycle fsys t0 sch d))))) (files d)"
    by (rule cycle_consumed)
  show "set (added (changes (state (cycle fsys t0 sch d)))) \<union>
   set (Changes.modified (changes (state (cycle fsys t0 sch d)))) \<subseteq>
     set (Object_keys (curr (state (cycle fsys t0 sch d))))"
    by (rule cycle_reported)
next
  assume "detectChanges fsys t0 t1 sch d = Some (d', Inl e)"
  then have "d' = d\<lparr>files := prev (state (cycle fsys t0 sch d))\<rparr>"
    by (auto simp: detectChanges_def Let_def split: position.splits option.splits)
  then show "d' = d\<lparr>files := filter (\<lambda>kv. fst kv \<notin> set (Object_keys (curr (state (cycle fsys t0 sch d)))))
                         (files d)\<rparr>"
    using cycle_consumed[of fsys t0 sch d] by simp
next
  assume "detectChanges fsys t0 t1 sch d = Some (d', Inr c)"
  then show "d' = d\<lparr>files := curr (state (cycle fsys t0 sch d))\<rparr>"
    by (auto simp: detectChanges_def Let_def split: position.splits option.splits)
qed

theorem detectChanges_abort_snapshot_witness:
  "detectChanges nested_fs 10 20 [0, 0, 0] nested_detector =
     Some (nested_detector\<lparr>files := [(''d/s/g'', Some 6)]\<rparr>, Inl (DenoError PermissionDenied)) \<and>
   curr (state (cycle nested_fs 10 [0, 0, 0] nested_detector)) = [(''d/f'', Some 5)] \<and>
   detectChanges nested_fs 10 20 [0, 0, 0, 0] nested_detector =
     Some (nested_detector\<lparr>files := []\<rparr>, Inl (DenoError PermissionDenied)) \<and>
   curr (state (cycle nested_fs 10 [0, 0, 0, 0] nested_detector)) =
     [(''d/f'', Some 5), (''d/s/g'', Some 6)] \<and>
   detectChanges nested_fs 10 20 [0, 0, 0, 0] (nested_detector\<lparr>targets := [''d'']\<rparr>) =
     Some (nested_detector\<lparr>targets := [''d''], files := [(''d/f'', Some 5), (''d/s/g'', Some 6)]\<rparr>,
           Inr \<lparr>added = [], modified = [], deleted = [], startTime = 10, endTime = 20,
                fileCount = 2\<rparr>)"
proof -
  have r3: "detectChanges nested_fs 10 20 [0, 0, 0] nested_detector =
     Some (nested_detector\<lparr>files := [(''d/s/g'', Some 6)]\<rparr>, Inl (DenoError PermissionDenied))"
    by (simp add: nested_fs_def nested_detector_def model_defs)
  have r4: "detectChanges nested_fs 10 20 [0, 0, 0, 0] nested_detector =
     Some (nested_detector\<lparr>files := []\<rparr>, Inl (DenoError PermissionDenied))"
    by (simp add: nested_fs_def nested_detector_def model_defs)
  have c3: "curr (state (cycle nested_fs 10 [0, 0, 0] nested_detector)) = [(''d/f'', Some 5)]"
    by (simp add: nested_fs_def nested_detector_def model_defs)
  have c4: "curr (state (cycle nested_fs 10 [0, 0, 0, 0] nested_detector)) =
     [(''d/f'', Some 5), (''d/s/g'', Some 6)]"
    by (simp add: nested_fs_def nested_detector_def model_defs)
  have r5: "detectChanges nested_fs 10 20 [0, 0, 0, 0] (nested_detector\<lparr>targets := [''d'']\<rparr>) =
     Some (nested_detector\<lparr>targets := [''d''], files := [(''d/f'', Some 5), (''d/s/g'', Some 6)]\<rparr>,
           Inr \<lparr>added = [], modified = [], deleted = [], startTime = 10, endTime = 20,
                fileCount = 2\<rparr>)"
    by (simp add: nested_fs_def nested_detector_def model_defs)
  note t3 = detectChanges_abort_snapshot[of nested_fs 10 "[0, 0, 0]" nested_detector 20
      "nested_detector\<lparr>files := [(''d/s/g'', Some 6)]\<rparr>" "DenoError PermissionDenied"]
  note t4 = detectChanges_abort_snapshot[of nested_fs 10 "[0, 0, 0, 0]" nested_detector 20
      "nested_detector\<lparr>files := []\<rparr>" "DenoError PermissionDenied"]
  note t5 = detectChanges_abort_snapshot[of nested_fs 10 "[0, 0, 0, 0]"
      "nested_detector\<lparr>targets := [''d'']\<rparr>" 20
      "nested_detector\<lparr>targets := [''d''], files := [(''d/f'', Some 5), (''d/s/g'', Some 6)]\<rparr>" _
      "\<lparr>added = [], modified = [], deleted = [], startTime = 10, endTime = 20, fileCount = 2\<rparr>"]
  from t3 r3 have "nested_detector\<lparr>files := [(''d/s/g'', Some 6)]\<rparr> =
      nested_detector\<lparr>files := filter (\<lambda>kv. fst kv \<notin> set (Object_keys
         (curr (state (cycle nested_fs 10 [0, 0, 0] nested_detector))))) (files nested_detector)\<rparr>"
    by blast
  moreover from t4 r4 have "nested_detector\<lparr>files := []\<rparr> =
      nested_detector\<lparr>files := filter (\<lambda>kv. fst kv \<notin> set (Object_keys
         (curr (state (cycle nested_fs 10 [0, 0, 0, 0] nested_detector))))) (files nested_detector)\<rparr>"
    by blast
  moreover from t5 r5 have "nested_detector\<lparr>targets := [''d''], files := [(''d/f'', Some 5), (''d/s/g'', Some 6)]\<rparr> =
      nested_detector\<lparr>targets := [''d'']\<rparr>\<lparr>files := curr (state (cycle nested_fs 10 [0, 0, 0, 0]
         (nested_detector\<lparr>targets := [''d'']\<rparr>)))\<rparr>"
    by blast
  ultimately show ?thesis using r3 r4 c3 c4 r5 by blast
qed


section \<open>Symlink entries when symlinks are not followed\<close>

lemma visit_unfollowed:
  "isSymlink i \<Longrightarrow> p \<noteq> [] \<Longrightarrow> visit flt (None, Some p, i) = Skip"
  by (simp add: visit_def isSymlink_def isDirectory_def isFile_def)

lemma run_loop_without:
  assumes "isSymlink i" "path i = Some p" "p \<noteq> []"
  shows "run_loop False flt (without i ts) st =
         (case run_loop False flt ts st of (st', q, rest) \<Rightarrow> (st', q, without i rest))"
proof (induction ts arbitrary: st)
  case Nil
  show ?case by (simp add: without_def)
next
  case (Cons f ts)
  show ?case
  proof (cases f)
    case (Str s)
    then show ?thesis by (simp add: without_def)
  next
    case (Info j)
    show ?thesis
    proof (cases "j = i")
      case True
      with Info Cons.IH[of st] assms show ?thesis
        by (simp add: without_def visit_unfollowed)
    next
      case False
      with Info Cons.IH show ?thesis
        by (simp add: without_def split: action.splits)
    qed
  qed
qed

lemma after_stat_without:
  assumes "isSymlink i" "path i = Some p" "p \<noteq> []"
  shows "after_stat False flt x (without i ts) st =
         (case after_stat False flt x ts st of (st', q, rest) \<Rightarrow> (st', q, without i rest))"
  by (simp add: after_stat_def run_loop_without[OF assms] split: sum.splits action.splits)

lemma erase_task_simps [simp]:
  "pos (erase_task i t) = pos t" "promises (erase_task i t) = promises t"
  "todo (erase_task i t) = without i (todo t)"
  by (simp_all add: erase_task_def)

lemma without_idem [simp]: "without i (without i ts) = without i ts"
  by (simp add: without_def)

lemma erase_task_settle_task: "settle_task qs (erase_task i t) = erase_task i (settle_task qs t)"
  by (simp add: settle_task_def erase_task_def)

lemma erase_settle_below:
  "settle_below j (map (erase_task i) ts) = map (erase_task i) (settle_below j ts)"
proof (induction j arbitrary: ts)
  case 0
  show ?case by simp
next
  case (Suc j)
  have pos: "map pos (map (erase_task i) ts) = map pos ts" by simp
  show ?case
  proof (cases "j < length ts")
    case True
    then show ?thesis
      by (simp add: pos erase_task_settle_task map_update[symmetric] Suc.IH del: map_map)
  next
    case False
    then have le: "length ts \<le> j" by simp
    have "ts[j := x] = ts" for x using le by (rule list_update_beyond)
    moreover have "(map (erase_task i) ts)[j := y] = map (erase_task i) ts" for y
      using le by (intro list_update_beyond) simp
    ultimately show ?thesis by (simp add: Suc.IH del: map_map)
  qed
qed

lemma erase_settle: "settle (map (erase_task i) ts) = map (erase_task i) (settle ts)"
  by (simp add: settle_def erase_settle_below)

lemma ready_nofollow:
  "ready fsys False t = (case pos t of AtStat f \<Rightarrow> True | AtReadDir q \<Rightarrow> True | _ \<Rightarrow> False)"
  by (auto simp: ready_def walk_resolve_def split: position.splits target.splits sum.splits)

lemma pending_erase: "pending fs1 False (erase i r) = pending fs2 False r"
  unfolding pending_def
  by (rule filter_cong) (simp_all add: erase_def ready_nofollow)

lemma pending_less: "j \<in> set (pending fsys follow r) \<Longrightarrow> j < length (tasks r)"
  by (simp add: pending_def)

lemma run_loop_similar:
  assumes "isSymlink i" "path i = Some p" "p \<noteq> []"
    and "without i ts1 = without i ts2"
    and "run_loop False flt ts1 st = (a1, q1, r1)" "run_loop False flt ts2 st = (a2, q2, r2)"
  shows "a1 = a2 \<and> q1 = q2 \<and> without i r1 = without i r2"
  using run_loop_without[OF assms(1-3), of flt ts1 st] run_loop_without[OF assms(1-3), of flt ts2 st]
    assms(4-6)
  by simp

lemma walk_resolve_nofollow:
  "lstat fs1 = lstat fs2 \<Longrightarrow> walk_resolve fs1 False f = walk_resolve fs2 False f"
  by (simp add: walk_resolve_def split: target.splits)

lemma walk_resolve_nofollow_Some: "\<exists>x. walk_resolve fsys False f = Some x"
  by (simp add: walk_resolve_def split: target.splits sum.splits)

lemma without_map_Info:
  "without i (map Info es) = map Info (filter (\<lambda>e. e \<noteq> i) es)"
  by (induction es) (simp_all add: without_def)

lemma erase_task_idem [simp]: "erase_task i (erase_task i t) = erase_task i t"
  by (simp add: erase_task_def)

lemma erase_task_idem_comp [simp]: "erase_task i \<circ> erase_task i = erase_task i"
  by (rule ext) simp

lemma erase_task_update:
  "erase_task i (t\<lparr>pos := q, todo := ts\<rparr>) = \<lparr>pos = q, todo = without i ts, promises = promises t\<rparr>"
  "erase_task i (t\<lparr>pos := q\<rparr>) = \<lparr>pos = q, todo = without i (todo t), promises = promises t\<rparr>"
  "erase_task i \<lparr>pos = q, todo = ts, promises = ps\<rparr> = \<lparr>pos = q, todo = without i ts, promises = ps\<rparr>"
  by (simp_all add: erase_task_def)

lemma same_listings_Inl:
  assumes "same_listings i fs1 fs2" "readDir fs1 q = Inl e"
  shows "readDir fs2 q = Inl e"
proof -
  from assms(1) have "case readDir fs1 q of
              Inl e \<Rightarrow> readDir fs2 q = Inl e
            | Inr es \<Rightarrow> (\<exists>es'. readDir fs2 q = Inr es' \<and>
                           filter (\<lambda>e. e \<noteq> i) es = filter (\<lambda>e. e \<noteq> i) es')"
    by (simp add: same_listings_def)
  with assms(2) show ?thesis by simp
qed

lemma same_listings_Inr:
  assumes "same_listings i fs1 fs2" "readDir fs1 q = Inr es"
  shows "\<exists>es'. readDir fs2 q = Inr es' \<and> filter (\<lambda>e. e \<noteq> i) es = filter (\<lambda>e. e \<noteq> i) es'"
proof -
  from assms(1) have "case readDir fs1 q of
              Inl e \<Rightarrow> readDir fs2 q = Inl e
            | Inr es \<Rightarrow> (\<exists>es'. readDir fs2 q = Inr es' \<and>
                           filter (\<lambda>e. e \<noteq> i) es = filter (\<lambda>e. e \<noteq> i) es')"
    by (simp add: same_listings_def)
  with assms(2) show ?thesis by simp
qed

lemma erase_complete:
  assumes sym: "isSymlink i" "path i = Some p" "p \<noteq> []"
    and same: "same_listings i fs1 fs2"
    and j: "j < length (tasks r)"
  shows "erase i (complete fs1 False flt j (erase i r)) = erase i (complete fs2 False flt j r)"
proof -
  let ?t = "tasks r ! j"
  have tj: "map (erase_task i) (tasks r) ! j = erase_task i ?t" using j by simp
  have stt: "state (erase i r) = state r" by (simp add: erase_def)
  have tk: "tasks (erase i r) = map (erase_task i) (tasks r)" by (simp add: erase_def)
  from same have ls: "lstat fs1 = lstat fs2" by (simp add: same_listings_def)
  show ?thesis
  proof (cases "pos ?t")
    case (AtStat f)
    obtain x where x: "walk_resolve fs2 False f = Some x"
      using walk_resolve_nofollow_Some by blast
    have x1: "walk_resolve fs1 False f = Some x"
      using walk_resolve_nofollow[OF ls, of f] x by simp
    obtain a q rest where as: "after_stat False flt x (todo ?t) (state r) = (a, q, rest)"
      by (cases "after_stat False flt x (todo ?t) (state r)") auto
    have as': "after_stat False flt x (without i (todo ?t)) (state r) = (a, q, without i rest)"
      unfolding after_stat_without[OF sym] as by simp
    have c1: "complete fs1 False flt j (erase i r) =
        \<lparr>state = a, tasks = (map (erase_task i) (tasks r))[j := (erase_task i ?t)\<lparr>pos := q, todo := without i rest\<rparr>]\<rparr>"
      using AtStat x1 as' by (simp add: complete_def Let_def stt tk tj)
    have c2: "complete fs2 False flt j r =
        \<lparr>state = a, tasks = (tasks r)[j := ?t\<lparr>pos := q, todo := rest\<rparr>]\<rparr>"
      unfolding complete_def Let_def using AtStat x as by simp
    show ?thesis
      unfolding c1 c2 by (simp add: erase_def map_update erase_task_update)
  next
    case (AtReadDir d)
    show ?thesis
    proof (cases "readDir fs1 d")
      case (Inl e)
      with same have r2: "readDir fs2 d = Inl e"
        by (rule same_listings_Inl)
      have c1: "complete fs1 False flt j (erase i r) =
          \<lparr>state = state r, tasks = (map (erase_task i) (tasks r))[j := (erase_task i ?t)\<lparr>pos := Settled (Some e)\<rparr>]\<rparr>"
        using AtReadDir Inl by (simp add: complete_def Let_def stt tk tj erase_def)
      have c2: "complete fs2 False flt j r =
          \<lparr>state = state r, tasks = (tasks r)[j := ?t\<lparr>pos := Settled (Some e)\<rparr>]\<rparr>"
        unfolding complete_def Let_def using AtReadDir r2 by simp
      show ?thesis
        unfolding c1 c2 by (simp add: erase_def map_update erase_task_update)
    next
      case (Inr es1)
      with same obtain es2 where r2: "readDir fs2 d = Inr es2"
        and eq: "filter (\<lambda>e. e \<noteq> i) es1 = filter (\<lambda>e. e \<noteq> i) es2"
        using same_listings_Inr by blast
      from eq have weq: "without i (map Info es1) = without i (map Info es2)"
        by (simp add: without_map_Info)
      obtain a1 q1 rest1 where l1: "run_loop False flt (map Info es1) (state r) = (a1, q1, rest1)"
        by (cases "run_loop False flt (map Info es1) (state r)") auto
      obtain a2 q2 rest2 where l2: "run_loop False flt (map Info es2) (state r) = (a2, q2, rest2)"
        by (cases "run_loop False flt (map Info es2) (state r)") auto
      from run_loop_similar[OF sym weq l1 l2]
      have s12: "a1 = a2" "q1 = q2" "without i rest1 = without i rest2" by simp_all
      obtain b c rest where l3: "run_loop False flt (todo ?t) a2 = (b, c, rest)"
        by (cases "run_loop False flt (todo ?t) a2") auto
      have l3': "run_loop False flt (without i (todo ?t)) a2 = (b, c, without i rest)"
        unfolding run_loop_without[OF sym] l3 by simp
      have c1: "complete fs1 False flt j (erase i r) =
          \<lparr>state = b,
           tasks = (map (erase_task i) (tasks r))[j := \<lparr>pos = c, todo = without i rest,
                      promises = promises ?t @ [length (tasks r)]\<rparr>]
                   @ [\<lparr>pos = q1, todo = rest1, promises = []\<rparr>]\<rparr>"
        using AtReadDir Inr l1 l3' s12(1) by (simp add: complete_def Let_def stt tk tj)
      have c2: "complete fs2 False flt j r =
          \<lparr>state = b,
           tasks = (tasks r)[j := \<lparr>pos = c, todo = rest,
                      promises = promises ?t @ [length (tasks r)]\<rparr>]
                   @ [\<lparr>pos = q2, todo = rest2, promises = []\<rparr>]\<rparr>"
        unfolding complete_def Let_def using AtReadDir r2 l2 l3 by simp
      show ?thesis
        unfolding c1 c2 using s12 by (simp add: erase_def map_update erase_task_update)
    qed
  next
    case AtAll
    have "complete fs1 False flt j (erase i r) = erase i r"
      using AtAll by (simp add: complete_def Let_def tk tj)
    moreover have "complete fs2 False flt j r = r"
      unfolding complete_def Let_def using AtAll by simp
    ultimately show ?thesis by (simp add: erase_def)
  next
    case (Settled x)
    have "complete fs1 False flt j (erase i r) = erase i r"
      using Settled by (simp add: complete_def Let_def tk tj)
    moreover have "complete fs2 False flt j r = r"
      unfolding complete_def Let_def using Settled by simp
    ultimately show ?thesis by (simp add: erase_def)
  qed
qed

lemma erase_idem [simp]: "erase i (erase i r) = erase i r"
  by (simp add: erase_def erase_task_def)


lemma erase_settled:
  "erase i (r\<lparr>tasks := settle (tasks r)\<rparr>) = (erase i r)\<lparr>tasks := settle (tasks (erase i r))\<rparr>"
  by (simp add: erase_def erase_settle)


lemma erase_turn:
  assumes sym: "isSymlink i" "path i = Some p" "p \<noteq> []"
    and same: "same_listings i fs1 fs2"
  shows "erase i (turn fs1 False flt k (erase i r)) = erase i (turn fs2 False flt k r)"
proof (cases "pending fs2 False r")
  case Nil
  then show ?thesis by (simp add: turn_def pending_erase[of fs1 i r fs2])
next
  case (Cons a as)
  let ?j = "(a # as) ! (k mod length (a # as))"
  have "?j \<in> set (pending fs2 False r)" unfolding Cons by (intro nth_mem) simp
  then have j: "?j < length (tasks r)" by (rule pending_less)
  have "erase i (turn fs1 False flt k (erase i r)) =
        (erase i (complete fs1 False flt ?j (erase i r)))
          \<lparr>tasks := settle (tasks (erase i (complete fs1 False flt ?j (erase i r))))\<rparr>"
    by (simp add: turn_def pending_erase[of fs1 i r fs2] Cons Let_def erase_settled)
  also have "\<dots> = (erase i (complete fs2 False flt ?j r))
          \<lparr>tasks := settle (tasks (erase i (complete fs2 False flt ?j r)))\<rparr>"
    by (simp only: erase_complete[OF sym same j])
  also have "\<dots> = erase i (turn fs2 False flt k r)"
    by (simp add: turn_def Cons Let_def erase_settled)
  finally show ?thesis .
qed


lemma same_listings_refl: "same_listings i fsys fsys"
  by (simp add: same_listings_def split: sum.splits)


lemma same_listings_drop: "same_listings i fsys (drop_entry i fsys)"
  by (simp add: same_listings_def drop_entry_def split: sum.splits)


lemma erase_turns:
  assumes sym: "isSymlink i" "path i = Some p" "p \<noteq> []"
    and same: "same_listings i fs1 fs2"
  shows "erase i r1 = erase i r2 \<Longrightarrow>
         erase i (turns fs1 False flt sch r1) = erase i (turns fs2 False flt sch r2)"
proof (induction sch arbitrary: r1 r2)
  case Nil
  then show ?case by simp
next
  case (Cons k sch)
  have "erase i (turn fs1 False flt k r1) = erase i (turn fs1 False flt k (erase i r1))"
    by (rule erase_turn[OF sym same_listings_refl, symmetric])
  also have "\<dots> = erase i (turn fs1 False flt k (erase i r2))" by (simp only: Cons.prems)
  also have "\<dots> = erase i (turn fs2 False flt k r2)" by (rule erase_turn[OF sym same])
  finally show ?case using Cons.IH by simp
qed


lemma erase_call_walk:
  assumes sym: "isSymlink i" "path i = Some p" "p \<noteq> []"
    and eq: "without i ts1 = without i ts2"
  shows "erase i (call_walk False flt ts1 st) = erase i (call_walk False flt ts2 st)"
proof -
  obtain a1 q1 rest1 where l1: "run_loop False flt ts1 st = (a1, q1, rest1)"
    by (cases "run_loop False flt ts1 st") auto
  obtain a2 q2 rest2 where l2: "run_loop False flt ts2 st = (a2, q2, rest2)"
    by (cases "run_loop False flt ts2 st") auto
  from run_loop_similar[OF sym eq l1 l2] l1 l2 show ?thesis
    by (simp add: call_walk_def erase_def erase_settle[symmetric] erase_task_def)
qed


lemma erase_walk:
  assumes sym: "isSymlink i" "path i = Some p" "p \<noteq> []"
    and same: "same_listings i fs1 fs2"
    and eq: "without i ts1 = without i ts2"
  shows "erase i (walk fs1 False flt sch ts1 st) = erase i (walk fs2 False flt sch ts2 st)"
  unfolding walk_def by (rule erase_turns[OF sym same erase_call_walk[OF sym eq]])


lemma erase_observe:
  assumes "erase i r1 = erase i r2"
  shows "state r1 = state r2 \<and> map pos (tasks r1) = map pos (tasks r2) \<and>
         map promises (tasks r1) = map promises (tasks r2)"
proof -
  from assms have s: "state r1 = state r2"
    and t: "map (erase_task i) (tasks r1) = map (erase_task i) (tasks r2)"
    by (simp_all add: erase_def)
  have "map pos (tasks r) = map pos (map (erase_task i) (tasks r))"
    "map promises (tasks r) = map promises (map (erase_task i) (tasks r))" for r
    by simp_all
  with s t show ?thesis by metis
qed

lemma without_append_Cons: "without i (xs @ Info i # ys) = without i (xs @ ys)"
  by (simp add: without_def)

lemma collect_resolve_unfollowed:
  "collect_resolve n fsys False (Info i) = Inr (None, path i, i)"
  by (simp add: collect_resolve_def)

lemma collect_without:
  assumes "isSymlink i" "path i = Some p" "p \<noteq> []"
  shows "collect n fsys False flt (without i ts) al = collect n fsys False flt ts al"
proof (cases n)
  case 0
  then show ?thesis by simp
next
  case (Suc m)
  show ?thesis
    unfolding Suc
  proof (induction ts arbitrary: al)
    case Nil
    show ?case by (simp add: without_def)
  next
    case (Cons f ts)
    show ?case
    proof (cases "f = Info i")
      case True
      have "without i (f # ts) = without i ts" using True by (simp add: without_def)
      moreover have "collect (Suc m) fsys False flt (f # ts) al = collect (Suc m) fsys False flt ts al"
        using True assms by (simp add: collect_resolve_unfollowed visit_unfollowed)
      ultimately show ?thesis using Cons.IH by simp
    next
      case False
      then have w: "without i (f # ts) = f # without i ts" by (simp add: without_def)
      show ?thesis
        unfolding w
        by (simp add: Cons.IH split: sum.splits action.splits prod.splits option.splits)
    qed
  qed
qed

lemma collect_resolve_nofollow:
  "lstat fs1 = lstat fs2 \<Longrightarrow> collect_resolve n fs1 False f = collect_resolve n fs2 False f"
  by (simp add: collect_resolve_def split: target.splits)

lemma collect_same_listings:
  assumes sym: "isSymlink i" "path i = Some p" "p \<noteq> []"
    and same: "same_listings i fs1 fs2"
  shows "collect n fs1 False flt ts al = collect n fs2 False flt ts al"
proof (induction n arbitrary: ts al)
  case 0
  show ?case by simp
next
  case (Suc n)
  note outer = Suc.IH
  from same have ls: "lstat fs1 = lstat fs2" by (simp add: same_listings_def)
  have sub: "collect n fs1 False flt (map Info es1) al = collect n fs2 False flt (map Info es2) al"
    if "readDir fs1 d = Inr es1" "readDir fs2 d = Inr es2" for d es1 es2 al
  proof -
    from same_listings_Inr[OF same that(1)] that(2)
    have "filter (\<lambda>e. e \<noteq> i) es1 = filter (\<lambda>e. e \<noteq> i) es2" by simp
    then have "without i (map Info es1) = without i (map Info es2)" by (simp add: without_map_Info)
    then have "collect n fs1 False flt (map Info es1) al = collect n fs1 False flt (map Info es2) al"
      using collect_without[OF sym, of n fs1 flt "map Info es1" al]
        collect_without[OF sym, of n fs1 flt "map Info es2" al] by simp
    then show ?thesis by (simp add: outer)
  qed
  show ?case
  proof (induction ts arbitrary: al)
    case Nil
    show ?case by simp
  next
    case (Cons f ts)
    have cr: "collect_resolve n fs1 False f = collect_resolve n fs2 False f"
      using ls by (rule collect_resolve_nofollow)
    show ?case
    proof (cases "collect_resolve n fs2 False f")
      case (Inl e)
      with cr Cons.IH show ?thesis by simp
    next
      case (Inr x)
      show ?thesis
      proof (cases "visit flt x")
        case (Descend d)
        show ?thesis
        proof (cases "readDir fs1 d")
          case (Inl e)
          with same_listings_Inl[OF same this] cr Inr Descend show ?thesis by simp
        next
          case r1: (Inr es1)
          with same_listings_Inr[OF same this] obtain es2 where r2: "readDir fs2 d = Inr es2" by blast
          from sub[OF r1 r2] cr Inr Descend r1 r2 Cons.IH show ?thesis
            by (simp split: prod.splits option.splits)
        qed
      qed (use cr Inr Cons.IH in simp_all)
    qed
  qed
qed

text \<open>
  Claim C10. With symlink following off, a symlink among the entries of a directory
  listing (an entry of a listing carries its path) leaves no trace. The walk over a
  listing and the walk over the listing without the entry have, after the same turns
  of any schedule, the same three objects and the same tasks in the same positions;
  the seeding pass over the one and over the other return the same. And
  \<open>detectChanges\<close> and \<open>init\<close> return on a file system what they return on the file
  system whose listings do not contain the entry.
\<close>

theorem unfollowed_symlink_entry_contributes_nothing:
  "isSymlink i \<Longrightarrow> path i = Some p \<Longrightarrow> p \<noteq> [] \<Longrightarrow>
   state (walk fsys False flt sch (xs @ Info i # ys) st) =
     state (walk fsys False flt sch (xs @ ys) st) \<and>
   map pos (tasks (walk fsys False flt sch (xs @ Info i # ys) st)) =
     map pos (tasks (walk fsys False flt sch (xs @ ys) st)) \<and>
   collect n fsys False flt (xs @ Info i # ys) al = collect n fsys False flt (xs @ ys) al \<and>
   (\<not> followSymlink (options d) \<longrightarrow>
      detectChanges fsys t0 t1 sch d = detectChanges (drop_entry i fsys) t0 t1 sch d \<and>
      init n fsys t0 t1 d = init n (drop_entry i fsys) t0 t1 d)"
proof -
  assume sym: "isSymlink i" "path i = Some p" "p \<noteq> []"
  have "erase i (walk fsys False flt sch (xs @ Info i # ys) st) =
        erase i (walk fsys False flt sch (xs @ ys) st)"
    by (rule erase_walk[OF sym same_listings_refl without_append_Cons])
  from erase_observe[OF this]
  have w: "state (walk fsys False flt sch (xs @ Info i # ys) st) =
     state (walk fsys False flt sch (xs @ ys) st) \<and>
   map pos (tasks (walk fsys False flt sch (xs @ Info i # ys) st)) =
     map pos (tasks (walk fsys False flt sch (xs @ ys) st))" by simp
  have c: "collect n fsys False flt (xs @ Info i # ys) al = collect n fsys False flt (xs @ ys) al"
    using collect_without[OF sym, of n fsys flt "xs @ Info i # ys" al]
      collect_without[OF sym, of n fsys flt "xs @ ys" al]
    by (simp add: without_append_Cons)
  have d: "detectChanges fsys t0 t1 sch d = detectChanges (drop_entry i fsys) t0 t1 sch d \<and>
      init n fsys t0 t1 d = init n (drop_entry i fsys) t0 t1 d"
    if nf: "\<not> followSymlink (options d)"
  proof -
    from nf have nf': "followSymlink (options d) = False" by simp
    have "erase i (cycle fsys t0 sch d) = erase i (cycle (drop_entry i fsys) t0 sch d)"
      unfolding cycle_def nf' by (rule erase_walk[OF sym same_listings_drop refl])
    from erase_observe[OF this]
    have s: "state (cycle fsys t0 sch d) = state (cycle (drop_entry i fsys) t0 sch d)"
      and m: "map pos (tasks (cycle fsys t0 sch d)) = map pos (tasks (cycle (drop_entry i fsys) t0 sch d))"
      by simp_all
    from m have p0: "pos (tasks (cycle fsys t0 sch d) ! 0) = pos (tasks (cycle (drop_entry i fsys) t0 sch d) ! 0)"
      by (cases "tasks (cycle fsys t0 sch d)"; cases "tasks (cycle (drop_entry i fsys) t0 sch d)") simp_all
    have "detectChanges fsys t0 t1 sch d = detectChanges (drop_entry i fsys) t0 t1 sch d"
      unfolding detectChanges_def Let_def s p0 by (rule refl)
    moreover have "init n fsys t0 t1 d = init n (drop_entry i fsys) t0 t1 d"
      unfolding init_def nf'
      by (simp only: collect_same_listings[OF sym same_listings_drop, of n fsys
            "makeFilter (options d)" "map Str (targets d)" "files d"])
    ultimately show ?thesis by simp
  qed
  from w c d show ?thesis by blast
qed

theorem unfollowed_symlink_entry_contributes_nothing_witness:
  "isSymlink (dir_entry ''l'' ''d/l'' Symlink (Some 4) None) \<and>
   \<not> followSymlink (options (new_Detector [''d''] defaultOptions)) \<and>
   state (walk listing_fs False (makeFilter defaultOptions) [0, 0]
     ([Info (dir_entry ''f'' ''d/f'' File (Some 5) None)] @
      Info (dir_entry ''l'' ''d/l'' Symlink (Some 4) None) # []) empty_state) =
   state (walk listing_fs False (makeFilter defaultOptions) [0, 0]
     ([Info (dir_entry ''f'' ''d/f'' File (Some 5) None)] @ []) empty_state) \<and>
   collect 2 listing_fs False (makeFilter defaultOptions)
     ([Info (dir_entry ''f'' ''d/f'' File (Some 5) None)] @
      Info (dir_entry ''l'' ''d/l'' Symlink (Some 4) None) # []) [] =
   collect 2 listing_fs False (makeFilter defaultOptions)
     ([Info (dir_entry ''f'' ''d/f'' File (Some 5) None)] @ []) [] \<and>
   detectChanges listing_fs 10 20 [0, 0] (new_Detector [''d''] defaultOptions) =
   detectChanges (drop_entry (dir_entry ''l'' ''d/l'' Symlink (Some 4) None) listing_fs) 10 20 [0, 0]
     (new_Detector [''d''] defaultOptions) \<and>
   detectChanges listing_fs 10 20 [0, 0] (new_Detector [''d''] defaultOptions) =
     Some (\<lparr>files = [(''d/f'', Some 5)], targets = [''d''], options = defaultOptions\<rparr>,
           Inr \<lparr>added = [''d/f''], modified = [], deleted = [], startTime = 10, endTime = 20,
                fileCount = 1\<rparr>) \<and>
   init 2 listing_fs 10 20 (new_Detector [''d''] defaultOptions) =
   init 2 (drop_entry (dir_entry ''l'' ''d/l'' Symlink (Some 4) None) listing_fs) 10 20
     (new_Detector [''d''] defaultOptions)"
proof -
  have s: "isSymlink (dir_entry ''l'' ''d/l'' Symlink (Some 4) None)"
    and p: "path (dir_entry ''l'' ''d/l'' Symlink (Some 4) None) = Some ''d/l''"
    and n: "''d/l'' \<noteq> []"
    and nf: "\<not> followSymlink (options (new_Detector [''d''] defaultOptions))"
    by (simp_all add: dir_entry_def isSymlink_def new_Detector_def defaultOptions_def)
  have v: "detectChanges listing_fs 10 20 [0, 0] (new_Detector [''d''] defaultOptions) =
     Some (\<lparr>files = [(''d/f'', Some 5)], targets = [''d''], options = defaultOptions\<rparr>,
           Inr \<lparr>added = [''d/f''], modified = [], deleted = [], startTime = 10, endTime = 20,
                fileCount = 1\<rparr>)"
    by (simp add: listing_fs_def model_defs)
  from unfollowed_symlink_entry_contributes_nothing[OF s p n, of listing_fs "makeFilter defaultOptions"
      "[0, 0]" "[Info (dir_entry ''f'' ''d/f'' File (Some 5) None)]" "[]" empty_state 2 "[]"
      "new_Detector [''d''] defaultOptions" 10 20] s nf v
  show ?thesis by blast
qed


section \<open>The polling loop\<close>

lemma sched_inv_start: "sched_inv (start interval t0 now)"
  by (simp add: sched_inv_def start_def loop_head_def)

lemma sched_inv_step: "sched_inv s \<Longrightarrow> step interval e s = Some s' \<Longrightarrow> sched_inv s'"
  by (cases e) (auto simp: sched_inv_def loop_head_def loop_fails_def split: if_splits)

lemma sched_inv_exec: "sched_inv s \<Longrightarrow> exec interval es s = Some s' \<Longrightarrow> sched_inv s'"
  by (induction es arbitrary: s) (auto split: option.splits dest: sched_inv_step)

lemma no_timer_no_scan:
  "\<not> timer_armed s \<Longrightarrow> abort s \<or> phase s = Waiting \<Longrightarrow> exec interval es s = Some s' \<Longrightarrow>
     scans s' = scans s \<and> \<not> timer_armed s'"
proof (induction es arbitrary: s)
  case Nil
  then show ?case by simp
next
  case (Cons e es)
  then obtain s1 where s1: "step interval e s = Some s1" and rest: "exec interval es s1 = Some s'"
    by (auto split: option.splits)
  from s1 Cons.prems(1,2) have "\<not> timer_armed s1 \<and> (abort s1 \<or> phase s1 = Waiting) \<and> scans s1 = scans s"
    by (cases e) (auto simp: loop_head_def loop_fails_def split: if_splits)
  with Cons.IH[OF _ _ rest] show ?case by simp
qed

lemma unresolved_until_scan_resolves:
  "phase s = Scanning \<or> phase s = Failed \<Longrightarrow> \<not> timeout s \<Longrightarrow> cancellation s \<noteq> Resolved \<Longrightarrow>
   exec interval es s = Some s' \<Longrightarrow> \<forall>c t. ScanResolves c t \<notin> set es \<Longrightarrow>
   (phase s' = Scanning \<or> phase s' = Failed) \<and> \<not> timeout s' \<and> cancellation s' \<noteq> Resolved"
proof (induction es arbitrary: s)
  case Nil
  then show ?case by simp
next
  case (Cons e es)
  then obtain s1 where s1: "step interval e s = Some s1" and rest: "exec interval es s1 = Some s'"
    by (auto split: option.splits)
  from Cons.prems(5) have e: "\<forall>c t. e \<noteq> ScanResolves c t" and es: "\<forall>c t. ScanResolves c t \<notin> set es"
    by auto
  from s1 e Cons.prems(1-3)
  have "(phase s1 = Scanning \<or> phase s1 = Failed) \<and> \<not> timeout s1 \<and> cancellation s1 \<noteq> Resolved"
    by (cases e) (auto simp: loop_fails_def split: if_splits)
  with Cons.IH[OF _ _ _ rest es] show ?case by blast
qed

text \<open>
  Claim C8. In any state the loop reaches from \<open>start\<close>, invoking the cancellation
  handle has this effect. While the timer is pending: the timer is cleared, the
  handle's promise is resolved at once, and whatever happens later no scan starts.
  While a scan is in flight: the handle's promise waits for the loop; whatever happens
  later no further scan starts, and the promise is resolved only in a run in which
  the scan has been settled.
\<close>

theorem cancellation_stops_the_loop:
  "exec interval es0 (start interval t0 now0) = Some s \<Longrightarrow>
   (\<exists>s1. step interval Cancel s = Some s1 \<and>
      (phase s = Waiting \<and> timer_armed s \<longrightarrow>
         \<not> timer_armed s1 \<and> cancellation s1 = Resolved \<and>
         (\<forall>es s2. exec interval es s1 = Some s2 \<longrightarrow> scans s2 = scans s1)) \<and>
      (phase s = Scanning \<longrightarrow>
         cancellation s1 = AwaitingLoop \<and>
         (\<forall>es s2. exec interval es s1 = Some s2 \<longrightarrow>
            scans s2 = scans s1 \<and>
            (cancellation s2 = Resolved \<longrightarrow> (\<exists>c t. ScanResolves c t \<in> set es)))))"
proof -
  assume run: "exec interval es0 (start interval t0 now0) = Some s"
  then have inv: "sched_inv s" using sched_inv_exec sched_inv_start by blast
  define s1 where "s1 = (if timeout s
           then s\<lparr>abort := True, timer_armed := False, cancellation := Resolved\<rparr>
           else s\<lparr>abort := True,
                  cancellation := (if phase s = Finished then Resolved
                                   else if phase s = Failed then Rejected
                                   else AwaitingLoop)\<rparr>)"
  have st: "step interval Cancel s = Some s1" by (simp add: s1_def)
  have w: "\<not> timer_armed s1 \<and> cancellation s1 = Resolved \<and>
         (\<forall>es s2. exec interval es s1 = Some s2 \<longrightarrow> scans s2 = scans s1)"
    if "phase s = Waiting \<and> timer_armed s"
  proof -
    from that inv have t: "timeout s" by (simp add: sched_inv_def)
    then have a: "\<not> timer_armed s1" "abort s1" "cancellation s1 = Resolved" by (simp_all add: s1_def)
    from no_timer_no_scan[OF a(1)] a(2) have "\<forall>es s2. exec interval es s1 = Some s2 \<longrightarrow> scans s2 = scans s1"
      by blast
    with a show ?thesis by blast
  qed
  have sc: "cancellation s1 = AwaitingLoop \<and>
         (\<forall>es s2. exec interval es s1 = Some s2 \<longrightarrow>
            scans s2 = scans s1 \<and>
            (cancellation s2 = Resolved \<longrightarrow> (\<exists>c t. ScanResolves c t \<in> set es)))"
    if "phase s = Scanning"
  proof -
    from that inv have t: "\<not> timeout s" "\<not> timer_armed s" by (auto simp: sched_inv_def)
    with that have a: "\<not> timer_armed s1" "abort s1" "cancellation s1 = AwaitingLoop"
      "phase s1 = Scanning" "\<not> timeout s1"
      by (simp_all add: s1_def)
    have "scans s2 = scans s1 \<and> (cancellation s2 = Resolved \<longrightarrow> (\<exists>c t. ScanResolves c t \<in> set es))"
      if r: "exec interval es s1 = Some s2" for es s2
    proof -
      from no_timer_no_scan[OF a(1) _ r] a(2) have "scans s2 = scans s1" by blast
      moreover from unresolved_until_scan_resolves[OF _ a(5) _ r] a(3,4)
      have "cancellation s2 = Resolved \<longrightarrow> (\<exists>c t. ScanResolves c t \<in> set es)" by auto
      ultimately show ?thesis by blast
    qed
    with a(3) show ?thesis by blast
  qed
  from st w sc show ?thesis by blast
qed

theorem cancellation_stops_the_loop_witness:
  "(\<exists>s s1 s2. exec 1000 [] (start 1000 0 0) = Some s \<and> phase s = Waiting \<and> timer_armed s \<and>
      step 1000 Cancel s = Some s1 \<and> \<not> timer_armed s1 \<and> cancellation s1 = Resolved \<and>
      exec 1000 [Cancel] s1 = Some s2 \<and> scans s2 = scans s1) \<and>
   (\<exists>s s1 s2. exec 1000 [TimerFires 1000] (start 1000 0 0) = Some s \<and> phase s = Scanning \<and>
      step 1000 Cancel s = Some s1 \<and> cancellation s1 = AwaitingLoop \<and>
      exec 1000 [ScanResolves (new_Changes\<lparr>startTime := 1000\<rparr>) 1200] s1 = Some s2 \<and>
      scans s2 = scans s1 \<and> cancellation s2 = Resolved \<and> phase s2 = Finished)"
proof (intro conjI)
  define s where "s = start 1000 0 0"
  have run: "exec 1000 [] (start 1000 0 0) = Some s" by (simp add: s_def)
  have ph: "phase s = Waiting \<and> timer_armed s" by (simp add: s_def start_def loop_head_def)
  from cancellation_stops_the_loop[OF run] ph obtain s1 where
    s1: "step 1000 Cancel s = Some s1" "\<not> timer_armed s1" "cancellation s1 = Resolved"
    and all: "\<forall>es s2. exec 1000 es s1 = Some s2 \<longrightarrow> scans s2 = scans s1"
    by blast
  obtain s2 where s2: "exec 1000 [Cancel] s1 = Some s2" by simp
  with all have "scans s2 = scans s1" by blast
  with run ph s1 s2 show "\<exists>s s1 s2. exec 1000 [] (start 1000 0 0) = Some s \<and> phase s = Waiting \<and>
      timer_armed s \<and> step 1000 Cancel s = Some s1 \<and> \<not> timer_armed s1 \<and>
      cancellation s1 = Resolved \<and> exec 1000 [Cancel] s1 = Some s2 \<and> scans s2 = scans s1"
    by blast
next
  obtain s where run: "exec 1000 [TimerFires 1000] (start 1000 0 0) = Some s"
    and ph: "phase s = Scanning" and tm: "\<not> timeout s" and ab: "\<not> abort s"
    by (simp add: start_def loop_head_def)
  from cancellation_stops_the_loop[OF run] ph obtain s1 where
    s1: "step 1000 Cancel s = Some s1" "cancellation s1 = AwaitingLoop"
    and all: "\<forall>es s2. exec 1000 es s1 = Some s2 \<longrightarrow> scans s2 = scans s1"
    by blast
  from s1(1) tm ph have s1_eq: "s1 = s\<lparr>abort := True, cancellation := AwaitingLoop\<rparr>" by simp
  obtain s2 where s2: "exec 1000 [ScanResolves (new_Changes\<lparr>startTime := 1000\<rparr>) 1200] s1 = Some s2"
    and fin: "cancellation s2 = Resolved" "phase s2 = Finished"
    using ph by (simp add: s1_eq loop_head_def changes_length_def new_Changes_def)
  from all s2 have "scans s2 = scans s1" by blast
  with run ph s1 s2 fin show "\<exists>s s1 s2. exec 1000 [TimerFires 1000] (start 1000 0 0) = Some s \<and>
      phase s = Scanning \<and> step 1000 Cancel s = Some s1 \<and> cancellation s1 = AwaitingLoop \<and>
      exec 1000 [ScanResolves (new_Changes\<lparr>startTime := 1000\<rparr>) 1200] s1 = Some s2 \<and>
      scans s2 = scans s1 \<and> cancellation s2 = Resolved \<and> phase s2 = Finished"
    by blast
qed

lemma delivered_exec:
  "exec interval es s = Some s' \<Longrightarrow>
     delivered s' = delivered s @ filter (\<lambda>c. changes_length c \<noteq> 0) (reports es)"
proof (induction es arbitrary: s)
  case Nil
  then show ?case by simp
next
  case (Cons e es)
  then obtain s1 where s1: "step interval e s = Some s1" and rest: "exec interval es s1 = Some s'"
    by (auto split: option.splits)
  from s1 have "delivered s1 = delivered s @ filter (\<lambda>c. changes_length c \<noteq> 0) (reports [e])"
    by (cases e) (auto simp: loop_head_def loop_fails_def split: if_splits)
  moreover have "reports (e # es) = reports [e] @ reports es" by (cases e) simp_all
  ultimately show ?case using Cons.IH[OF rest] by simp
qed

text \<open>
  Claim C9. In any state the loop reaches from \<open>start\<close> with a scan in flight, the
  reports handed to the consumer so far are exactly the reports with a change among
  those of the scans settled so far. When the scan is settled with report \<open>c\<close>,
  \<open>lastStartTime\<close> becomes the start time of \<open>c\<close> either way; \<open>c\<close> is handed to the
  consumer if it has a change and is not otherwise; and the next timer, set after the
  callback or at once, waits \<open>max 0 (interval - (now - startTime c))\<close> where \<open>now\<close> is
  the clock at that moment.
\<close>

theorem reports_delivered_and_cadence:
  "exec interval es (start interval t0 now0) = Some s \<Longrightarrow> phase s = Scanning \<Longrightarrow>
   delivered s = filter (\<lambda>c. changes_length c \<noteq> 0) (reports es) \<and>
   (\<exists>s'. step interval (ScanResolves c now) s = Some s' \<and>
      lastStartTime s' = startTime c \<and>
      (changes_length c \<noteq> 0 \<longrightarrow>
         delivered s' = delivered s @ [c] \<and> phase s' = Delivering \<and>
         (\<not> abort s' \<longrightarrow>
           (\<exists>s''. step interval (CallbackResolves later) s' = Some s'' \<and> phase s'' = Waiting \<and>
              timer_armed s'' \<and>
              waits s'' = waits s @ [max 0 (interval - (later - startTime c))]))) \<and>
      (changes_length c = 0 \<longrightarrow>
         delivered s' = delivered s \<and>
         (\<not> abort s \<longrightarrow> phase s' = Waiting \<and> timer_armed s' \<and>
            waits s' = waits s @ [max 0 (interval - (now - startTime c))])))"
proof -
  assume run: "exec interval es (start interval t0 now0) = Some s" and ph: "phase s = Scanning"
  from delivered_exec[OF run] have "delivered s = filter (\<lambda>c. changes_length c \<noteq> 0) (reports es)"
    by (simp add: start_def loop_head_def)
  with ph show ?thesis by (auto simp: loop_head_def)
qed

theorem reports_delivered_and_cadence_witness:
  "\<exists>s s'. exec 1000 [TimerFires 1000] (start 1000 0 0) = Some s \<and> phase s = Scanning \<and>
      delivered s = [] \<and>
      step 1000 (ScanResolves (new_Changes\<lparr>startTime := 1000\<rparr>) 1300) s = Some s' \<and>
      lastStartTime s' = 1000 \<and> delivered s' = [] \<and> phase s' = Waiting \<and>
      waits s' = waits s @ [700]"
proof -
  obtain s where run: "exec 1000 [TimerFires 1000] (start 1000 0 0) = Some s"
    and ph: "phase s = Scanning" and ab: "\<not> abort s"
    by (simp add: start_def loop_head_def)
  have z: "changes_length (new_Changes\<lparr>startTime := 1000\<rparr>) = 0"
    by (simp add: changes_length_def new_Changes_def)
  from reports_delivered_and_cadence[OF run ph, of "new_Changes\<lparr>startTime := 1000\<rparr>" 1300 0] z ab
  obtain s' where "delivered s = []"
    "step 1000 (ScanResolves (new_Changes\<lparr>startTime := 1000\<rparr>) 1300) s = Some s'"
    "lastStartTime s' = 1000" "delivered s' = delivered s" "phase s' = Waiting"
    "waits s' = waits s @ [max 0 (1000 - (1300 - 1000))]"
    by (auto simp: new_Changes_def)
  with run ph show ?thesis by auto
qed


section \<open>Falsy timestamps and the two passes\<close>

text \<open>
  Claim C1 does not hold of the code. \<open>walk\<close> tests \<open>!prev[path]\<close> to find out whether
  the path is new, and a timestamp of 0 (or \<open>null\<close>) is falsy. The seeding pass
  stores \<open>f\<close>, whose times are 0, with timestamp 0. When \<open>f\<close> then has timestamp 5 it
  is reported as added, not as modified; when \<open>f\<close> still has timestamp 0 it is
  reported as added, not left out. This is so for any stack and, once the stat of \<open>f\<close>
  is settled, for any schedule.
\<close>

theorem falsy_previous_timestamp_reported_added:
  "init (Suc n) (single_file_fs (Some 0) (Some 0)) 0 1 (new_Detector [''f''] defaultOptions) =
   (\<lparr>files = [(''f'', Some 0)], targets = [''f''], options = defaultOptions\<rparr>,
    Inr \<lparr>added = [], modified = [], deleted = [], startTime = 0, endTime = 1,
         fileCount = 1\<rparr>) \<and>
   detectChanges (single_file_fs (Some 5) None) 10 20 (k # sch)
     \<lparr>files = [(''f'', Some 0)], targets = [''f''], options = defaultOptions\<rparr> =
   Some (\<lparr>files = [(''f'', Some 5)], targets = [''f''], options = defaultOptions\<rparr>,
         Inr \<lparr>added = [''f''], modified = [], deleted = [], startTime = 10, endTime = 20,
              fileCount = 1\<rparr>) \<and>
   detectChanges (single_file_fs (Some 0) (Some 0)) 10 20 (k # sch)
     \<lparr>files = [(''f'', Some 0)], targets = [''f''], options = defaultOptions\<rparr> =
   Some (\<lparr>files = [(''f'', Some 0)], targets = [''f''], options = defaultOptions\<rparr>,
         Inr \<lparr>added = [''f''], modified = [], deleted = [], startTime = 10, endTime = 20,
              fileCount = 1\<rparr>)"
proof (intro conjI)
  show "init (Suc n) (single_file_fs (Some 0) (Some 0)) 0 1 (new_Detector [''f''] defaultOptions) =
   (\<lparr>files = [(''f'', Some 0)], targets = [''f''], options = defaultOptions\<rparr>,
    Inr \<lparr>added = [], modified = [], deleted = [], startTime = 0, endTime = 1,
         fileCount = 1\<rparr>)"
    by (simp add: single_file_fs_def model_defs)
next
  let ?d = "\<lparr>files = [(''f'', Some 0)], targets = [''f''], options = defaultOptions\<rparr>"
  have "pending (single_file_fs (Some 5) None) (followSymlink (options ?d))
          (cycle (single_file_fs (Some 5) None) 10 [k] ?d) = []"
    by (simp add: single_file_fs_def model_defs)
  from detectChanges_idle[OF this, of 20 sch]
  show "detectChanges (single_file_fs (Some 5) None) 10 20 (k # sch) ?d =
   Some (\<lparr>files = [(''f'', Some 5)], targets = [''f''], options = defaultOptions\<rparr>,
         Inr \<lparr>added = [''f''], modified = [], deleted = [], startTime = 10, endTime = 20,
              fileCount = 1\<rparr>)"
    by (simp add: single_file_fs_def model_defs)
next
  let ?d = "\<lparr>files = [(''f'', Some 0)], targets = [''f''], options = defaultOptions\<rparr>"
  have "pending (single_file_fs (Some 0) (Some 0)) (followSymlink (options ?d))
          (cycle (single_file_fs (Some 0) (Some 0)) 10 [k] ?d) = []"
    by (simp add: single_file_fs_def model_defs)
  from detectChanges_idle[OF this, of 20 sch]
  show "detectChanges (single_file_fs (Some 0) (Some 0)) 10 20 (k # sch) ?d =
   Some (\<lparr>files = [(''f'', Some 0)], targets = [''f''], options = defaultOptions\<rparr>,
         Inr \<lparr>added = [''f''], modified = [], deleted = [], startTime = 10, endTime = 20,
              fileCount = 1\<rparr>)"
    by (simp add: single_file_fs_def model_defs)
qed

text \<open>
  Claim C2 does not hold of the code. \<open>walk\<close> tests \<open>curr[path]\<close> to find out whether
  the file was already recorded in this cycle, and a falsy timestamp hides the record.
  The seeding pass follows the two symlinks to \<open>x/f\<close>, whose timestamp is -5. In the
  next cycle \<open>x/f\<close> has modification time 0 and no creation time: the first symlink
  reports it as modified, the second as added. The cycle awaits one operation at a
  time, four in all, so the schedule has no say.
\<close>

theorem path_in_added_and_modified:
  "init (Suc (Suc (Suc n))) (two_links_fs (Some (- 5)) None) 0 1 (new_Detector [''d''] follow_options) =
   (\<lparr>files = [(''x/f'', Some (- 5))], targets = [''d''], options = follow_options\<rparr>,
    Inr \<lparr>added = [], modified = [], deleted = [], startTime = 0, endTime = 1,
         fileCount = 1\<rparr>) \<and>
   detectChanges (two_links_fs (Some 0) None) 10 20 (k1 # k2 # k3 # k4 # sch)
     \<lparr>files = [(''x/f'', Some (- 5))], targets = [''d''], options = follow_options\<rparr> =
   Some (\<lparr>files = [(''x/f'', None)], targets = [''d''], options = follow_options\<rparr>,
         Inr \<lparr>added = [''x/f''], modified = [''x/f''], deleted = [], startTime = 10,
              endTime = 20, fileCount = 1\<rparr>)"
proof (intro conjI)
  show "init (Suc (Suc (Suc n))) (two_links_fs (Some (- 5)) None) 0 1 (new_Detector [''d''] follow_options) =
   (\<lparr>files = [(''x/f'', Some (- 5))], targets = [''d''], options = follow_options\<rparr>,
    Inr \<lparr>added = [], modified = [], deleted = [], startTime = 0, endTime = 1,
         fileCount = 1\<rparr>)"
    by (simp add: two_links_fs_def follow_options_def model_defs)
next
  let ?d = "\<lparr>files = [(''x/f'', Some (- 5))], targets = [''d''], options = follow_options\<rparr>"
  have "pending (two_links_fs (Some 0) None) (followSymlink (options ?d))
          (cycle (two_links_fs (Some 0) None) 10 [k1, k2, k3, k4] ?d) = []"
    by (simp add: two_links_fs_def follow_options_def model_defs statTraverse.simps)
  from detectChanges_idle[OF this, of 20 sch]
  show "detectChanges (two_links_fs (Some 0) None) 10 20 (k1 # k2 # k3 # k4 # sch) ?d =
   Some (\<lparr>files = [(''x/f'', None)], targets = [''d''], options = follow_options\<rparr>,
         Inr \<lparr>added = [''x/f''], modified = [''x/f''], deleted = [], startTime = 10,
              endTime = 20, fileCount = 1\<rparr>)"
    by (simp add: two_links_fs_def follow_options_def model_defs statTraverse.simps)
qed

text \<open>
  Claim C3 does not hold of the code, for two reasons. The file system is the same
  in both calls. First, a file whose timestamp is falsy is reported as added again.
  Second, with symlinks followed, \<open>collect\<close> stores a linked file under the path the
  first symlink holds (\<open>readlinkSync\<close>, line 291) and \<open>walk\<close> under the path the chain
  ends at (line 238): for the chain \<open>d/l2 -> x/l1 -> x/f\<close> the cycle reports \<open>x/f\<close> as
  added and \<open>x/l1\<close> as deleted. Neither depends on the schedule.
\<close>

theorem init_then_detectChanges_reports_changes:
  "init (Suc n) (single_file_fs (Some 0) None) 0 1 (new_Detector [''f''] defaultOptions) =
   (\<lparr>files = [(''f'', None)], targets = [''f''], options = defaultOptions\<rparr>,
    Inr \<lparr>added = [], modified = [], deleted = [], startTime = 0, endTime = 1,
         fileCount = 1\<rparr>) \<and>
   detectChanges (single_file_fs (Some 0) None) 10 20 (k1 # sch)
     \<lparr>files = [(''f'', None)], targets = [''f''], options = defaultOptions\<rparr> =
   Some (\<lparr>files = [(''f'', None)], targets = [''f''], options = defaultOptions\<rparr>,
         Inr \<lparr>added = [''f''], modified = [], deleted = [], startTime = 10, endTime = 20,
              fileCount = 1\<rparr>) \<and>
   init (Suc (Suc (Suc (Suc n)))) chain_fs 0 1 (new_Detector [''d''] follow_options) =
   (\<lparr>files = [(''x/l1'', Some 5)], targets = [''d''], options = follow_options\<rparr>,
    Inr \<lparr>added = [], modified = [], deleted = [], startTime = 0, endTime = 1,
         fileCount = 1\<rparr>) \<and>
   detectChanges chain_fs 10 20 (k1 # k2 # k3 # sch)
     \<lparr>files = [(''x/l1'', Some 5)], targets = [''d''], options = follow_options\<rparr> =
   Some (\<lparr>files = [(''x/f'', Some 5)], targets = [''d''], options = follow_options\<rparr>,
         Inr \<lparr>added = [''x/f''], modified = [], deleted = [''x/l1''], startTime = 10,
              endTime = 20, fileCount = 1\<rparr>)"
proof (intro conjI)
  show "init (Suc n) (single_file_fs (Some 0) None) 0 1 (new_Detector [''f''] defaultOptions) =
   (\<lparr>files = [(''f'', None)], targets = [''f''], options = defaultOptions\<rparr>,
    Inr \<lparr>added = [], modified = [], deleted = [], startTime = 0, endTime = 1,
         fileCount = 1\<rparr>)"
    by (simp add: single_file_fs_def model_defs)
next
  let ?d = "\<lparr>files = [(''f'', None)], targets = [''f''], options = defaultOptions\<rparr>"
  have "pending (single_file_fs (Some 0) None) (followSymlink (options ?d))
          (cycle (single_file_fs (Some 0) None) 10 [k1] ?d) = []"
    by (simp add: single_file_fs_def model_defs)
  from detectChanges_idle[OF this, of 20 sch]
  show "detectChanges (single_file_fs (Some 0) None) 10 20 (k1 # sch) ?d =
   Some (\<lparr>files = [(''f'', None)], targets = [''f''], options = defaultOptions\<rparr>,
         Inr \<lparr>added = [''f''], modified = [], deleted = [], startTime = 10, endTime = 20,
              fileCount = 1\<rparr>)"
    by (simp add: single_file_fs_def model_defs)
next
  show "init (Suc (Suc (Suc (Suc n)))) chain_fs 0 1 (new_Detector [''d''] follow_options) =
   (\<lparr>files = [(''x/l1'', Some 5)], targets = [''d''], options = follow_options\<rparr>,
    Inr \<lparr>added = [], modified = [], deleted = [], startTime = 0, endTime = 1,
         fileCount = 1\<rparr>)"
    by (simp add: chain_fs_def follow_options_def model_defs)
next
  let ?d = "\<lparr>files = [(''x/l1'', Some 5)], targets = [''d''], options = follow_options\<rparr>"
  have "pending chain_fs (followSymlink (options ?d)) (cycle chain_fs 10 [k1, k2, k3] ?d) = []"
    by (simp add: chain_fs_def follow_options_def model_defs statTraverse.simps)
  from detectChanges_idle[OF this, of 20 sch]
  show "detectChanges chain_fs 10 20 (k1 # k2 # k3 # sch) ?d =
   Some (\<lparr>files = [(''x/f'', Some 5)], targets = [''d''], options = follow_options\<rparr>,
         Inr \<lparr>added = [''x/f''], modified = [], deleted = [''x/l1''], startTime = 10,
              endTime = 20, fileCount = 1\<rparr>)"
    by (simp add: chain_fs_def follow_options_def model_defs statTraverse.simps)
qed


end
